theory Spec2Isabelle
  imports Main
begin

section \<open>Data model\<close>

text \<open>
  The solver keeps its state in module-level variables. Both solver files
  (\<^verbatim>\<open>sudoku_final.py\<close> and \<^verbatim>\<open>sudoku_old.py\<close>) use the same five:
  the main grid, the candidate grid and the three families of solved-value sets.
  A grid is a list of columns: \<^verbatim>\<open>g[x][y]\<close> is column \<open>x\<close>, row \<open>y\<close>.
\<close>

definition grid_l :: nat where "grid_l = 9"
definition sub_l :: nat where "sub_l = 3"
definition sub_h :: nat where "sub_h = 3"

type_synonym 'a grid = "'a list list"

text \<open>\<^verbatim>\<open>g[x][y]\<close> and \<^verbatim>\<open>g[x][y] = v\<close>.\<close>

definition gget :: "'a grid \<Rightarrow> nat \<Rightarrow> nat \<Rightarrow> 'a" where
  "gget g x y = g ! x ! y"

definition gput :: "'a grid \<Rightarrow> nat \<Rightarrow> nat \<Rightarrow> 'a \<Rightarrow> 'a grid" where
  "gput g x y v = g[x := (g ! x)[y := v]]"

text \<open>
  A grid of \<open>w\<close> columns of \<open>h\<close> entries each. Python raises \<^verbatim>\<open>IndexError\<close> on an
  index outside a list; every index the solver uses comes from a \<^verbatim>\<open>range\<close> within
  the grid, and the theorems below carry the shape and the bounds as hypotheses.
\<close>

definition shaped :: "nat \<Rightarrow> nat \<Rightarrow> 'a grid \<Rightarrow> bool" where
  "shaped w h g \<longleftrightarrow> length g = w \<and> list_all (\<lambda>c. length c = h) g"

record board =
  m_grid :: "int grid"
  c_grid :: "int set grid"
  col_set :: "int set list"
  row_set :: "int set list"
  s_grid_set :: "int set grid"

text \<open>The names of \<^verbatim>\<open>sudoku_old.py\<close> for the same variables.\<close>

abbreviation main_grid :: "board \<Rightarrow> int grid" where
  "main_grid \<equiv> m_grid"

abbreviation candidates_grid :: "board \<Rightarrow> int set grid" where
  "candidates_grid \<equiv> c_grid"

abbreviation sub_grid_set :: "board \<Rightarrow> int set grid" where
  "sub_grid_set \<equiv> s_grid_set"

definition full_set :: "int set" where
  "full_set = set (map int [1..<grid_l + 1])"

definition well_formed :: "board \<Rightarrow> bool" where
  "well_formed b \<longleftrightarrow>
     shaped grid_l grid_l (m_grid b) \<and> shaped grid_l grid_l (c_grid b) \<and>
     length (col_set b) = grid_l \<and> length (row_set b) = grid_l \<and>
     shaped sub_h sub_l (s_grid_set b)"

section \<open>Placing a value\<close>

text \<open>\<^verbatim>\<open>c_grid[x][y].discard(v)\<close>.\<close>

definition discard :: "int set grid \<Rightarrow> nat \<Rightarrow> nat \<Rightarrow> int \<Rightarrow> int set grid" where
  "discard g x y v = gput g x y (gget g x y - {v})"

text \<open>
  The two loops that end both \<^verbatim>\<open>write_solution\<close> (final, lines 96-101) and
  \<^verbatim>\<open>pencil_in\<close> (old, lines 115-120): discard the solution in the sub-grid of
  \<open>(x, y)\<close>, then in column \<open>x\<close> and row \<open>y\<close>.
\<close>

definition remove_solution :: "int \<Rightarrow> nat \<Rightarrow> nat \<Rightarrow> int set grid \<Rightarrow> int set grid" where
  "remove_solution solution x y g =
     (let s_grid_x = (x div sub_l) * sub_l;
          s_grid_y = (y div sub_h) * sub_h;
          g1 = fold (\<lambda>c_y. fold (\<lambda>c_x g'. discard g' c_x c_y solution)
                              [s_grid_x..<s_grid_x + sub_l])
                    [s_grid_y..<s_grid_y + sub_h] g
      in fold (\<lambda>i g'. discard (discard g' x i solution) i y solution) [0..<grid_l] g1)"

text \<open>\<^verbatim>\<open>pencil_in(solution, x, y, func)\<close> of \<^verbatim>\<open>sudoku_old.py\<close>; \<open>func\<close> is unused.\<close>

definition pencil_in :: "int \<Rightarrow> nat \<Rightarrow> nat \<Rightarrow> board \<Rightarrow> board" where
  "pencil_in solution x y b =
     (let sub_grid_x = x div 3;
          sub_grid_y = y div 3
      in b\<lparr>m_grid := gput (m_grid b) x y solution,
           row_set := (row_set b)[y := insert solution (row_set b ! y)],
           col_set := (col_set b)[x := insert solution (col_set b ! x)],
           s_grid_set := gput (s_grid_set b) sub_grid_x sub_grid_y
                           (insert solution (gget (s_grid_set b) sub_grid_x sub_grid_y)),
           c_grid := remove_solution solution x y (gput (c_grid b) x y {})\<rparr>)"

text \<open>
  One iteration of the loop of \<^verbatim>\<open>write_solution(y)\<close> of \<^verbatim>\<open>sudoku_final.py\<close>, at
  column \<open>x\<close>. \<^verbatim>\<open>pop()\<close> is called on a set of one element only, so it returns that
  element. The final solver no longer updates the solved-value sets.
\<close>

definition write_solution_at :: "nat \<Rightarrow> nat \<Rightarrow> board \<Rightarrow> board" where
  "write_solution_at y x b =
     (if card (gget (c_grid b) x y) = 1 then
        (let solution = the_elem (gget (c_grid b) x y)
         in b\<lparr>m_grid := gput (m_grid b) x y solution,
              c_grid := remove_solution solution x y (gput (c_grid b) x y {})\<rparr>)
      else b)"

definition write_solution :: "nat \<Rightarrow> board \<Rightarrow> board" where
  "write_solution y b = fold (write_solution_at y) [0..<grid_l] b"

text \<open>\<^verbatim>\<open>single_candidate_square(y)\<close> of \<^verbatim>\<open>sudoku_old.py\<close>.\<close>

definition single_candidate_square_at :: "nat \<Rightarrow> nat \<Rightarrow> board \<Rightarrow> board" where
  "single_candidate_square_at y x b =
     (if card (gget (c_grid b) x y) = 1
      then pencil_in (the_elem (gget (c_grid b) x y)) x y b else b)"

definition single_candidate_square :: "nat \<Rightarrow> board \<Rightarrow> board" where
  "single_candidate_square y b = fold (single_candidate_square_at y) [0..<grid_l] b"

text \<open>
  The cells that a placement at \<open>(x, y)\<close> visits: the sub-grid of \<open>(x, y)\<close>,
  column \<open>x\<close> and row \<open>y\<close> (the placed cell included).
\<close>

definition same_unit :: "nat \<Rightarrow> nat \<Rightarrow> nat \<Rightarrow> nat \<Rightarrow> bool" where
  "same_unit x y x' y' \<longleftrightarrow>
     x' = x \<or> y' = y \<or> (x' div sub_l = x div sub_l \<and> y' div sub_h = y div sub_h)"

section \<open>Disjoint subsets\<close>

text \<open>
  \<^verbatim>\<open>itertools.combinations(sets, n)\<close>: the sub-sequences of length \<open>n\<close>, chosen by position,
  in lexicographic order of the positions.
\<close>

fun combinations :: "'a list \<Rightarrow> nat \<Rightarrow> 'a list list" where
  "combinations xs 0 = [[]]"
| "combinations [] (Suc n) = []"
| "combinations (x # xs) (Suc n) = map ((#) x) (combinations xs n) @ combinations xs (Suc n)"

text \<open>
  The cells of a unit in the order of the two nested loops
  \<^verbatim>\<open>for y in range(y_range[0], y_range[1]): for x in range(x_range[0], x_range[1])\<close>.
\<close>

definition unit_cells :: "nat \<times> nat \<Rightarrow> nat \<times> nat \<Rightarrow> (nat \<times> nat) list" where
  "unit_cells x_range y_range =
     concat (map (\<lambda>y. map (\<lambda>x. (x, y)) [fst x_range..<snd x_range])
                 [fst y_range..<snd y_range])"

text \<open>The list \<^verbatim>\<open>sets\<close>: the candidate sets of the unit with more than one and at most \<open>n\<close> values.\<close>

definition small_sets :: "nat \<Rightarrow> int set grid \<Rightarrow> (nat \<times> nat) list \<Rightarrow> int set list" where
  "small_sets n g cells =
     map (\<lambda>(x, y). gget g x y)
       (filter (\<lambda>(x, y). 1 < card (gget g x y) \<and> card (gget g x y) \<le> n) cells)"

definition superset_of :: "int set list \<Rightarrow> int set" where
  "superset_of combination = fold (\<lambda>c superset. superset \<union> c) combination {}"

text \<open>
  \<^verbatim>\<open>get_disjoint_subsets(sets, n)\<close> of \<^verbatim>\<open>sudoku_old.py\<close>, which is lines 130-138 of
  \<^verbatim>\<open>disjoint_subsets\<close> in \<^verbatim>\<open>sudoku_final.py\<close>. The Python set \<^verbatim>\<open>d_subsets\<close> is
  represented by the sequence of its \<^verbatim>\<open>add\<close> calls; a value added twice is in the set once.
\<close>

definition get_disjoint_subsets :: "int set list \<Rightarrow> nat \<Rightarrow> int set list" where
  "get_disjoint_subsets sets n =
     filter (\<lambda>superset. card superset = n) (map superset_of (combinations sets n))"

text \<open>
  Python does not fix the order in which \<^verbatim>\<open>for d in d_subsets\<close> visits a set. The order is
  a parameter \<open>order\<close> of the model: from the sequence of \<^verbatim>\<open>add\<close> calls that built the set
  to the sequence in which the loop visits it. All that is known of it is that every
  member is visited once.
\<close>

definition set_order :: "(int set list \<Rightarrow> int set list) \<Rightarrow> bool" where
  "set_order order \<longleftrightarrow> (\<forall>added. set (order added) = set added \<and> distinct (order added))"

text \<open>The body of the elimination loop at one cell, and the nested loops over it.\<close>

definition eliminate_at :: "int set \<Rightarrow> nat \<times> nat \<Rightarrow> int set grid \<Rightarrow> int set grid" where
  "eliminate_at d c g =
     (case c of (x, y) \<Rightarrow>
        if \<not> gget g x y \<subseteq> d then gput g x y (gget g x y - d) else g)"

definition eliminate :: "int set list \<Rightarrow> (nat \<times> nat) list \<Rightarrow> int set grid \<Rightarrow> int set grid" where
  "eliminate ds cells g = fold (\<lambda>d. fold (eliminate_at d) cells) ds g"

text \<open>\<^verbatim>\<open>disjoint_subsets(x_range, y_range, n)\<close> of \<^verbatim>\<open>sudoku_final.py\<close>.\<close>

definition disjoint_subsets ::
  "(int set list \<Rightarrow> int set list) \<Rightarrow> nat \<times> nat \<Rightarrow> nat \<times> nat \<Rightarrow> nat \<Rightarrow> board \<Rightarrow> board" where
  "disjoint_subsets order x_range y_range n b =
     (let cells = unit_cells x_range y_range;
          sets = small_sets n (c_grid b) cells;
          d_subsets = order (get_disjoint_subsets sets n)
      in b\<lparr>c_grid := eliminate d_subsets cells (c_grid b)\<rparr>)"

text \<open>
  \<^verbatim>\<open>disjoint_subsets_row(y, n)\<close>, \<^verbatim>\<open>disjoint_subsets_col(x, n)\<close> and
  \<^verbatim>\<open>disjoint_subsets_subgrid(sub_grid_x, sub_grid_y, n)\<close> of \<^verbatim>\<open>sudoku_old.py\<close>.
\<close>

definition disjoint_subsets_row ::
  "(int set list \<Rightarrow> int set list) \<Rightarrow> nat \<Rightarrow> nat \<Rightarrow> board \<Rightarrow> board" where
  "disjoint_subsets_row order y n b =
     (let cells = map (\<lambda>x. (x, y)) [0..<9];
          sets = small_sets n (c_grid b) cells
      in b\<lparr>c_grid := eliminate (order (get_disjoint_subsets sets n)) cells (c_grid b)\<rparr>)"

definition disjoint_subsets_col ::
  "(int set list \<Rightarrow> int set list) \<Rightarrow> nat \<Rightarrow> nat \<Rightarrow> board \<Rightarrow> board" where
  "disjoint_subsets_col order x n b =
     (let cells = map (\<lambda>y. (x, y)) [0..<9];
          sets = small_sets n (c_grid b) cells
      in b\<lparr>c_grid := eliminate (order (get_disjoint_subsets sets n)) cells (c_grid b)\<rparr>)"

definition disjoint_subsets_subgrid ::
  "(int set list \<Rightarrow> int set list) \<Rightarrow> nat \<Rightarrow> nat \<Rightarrow> nat \<Rightarrow> board \<Rightarrow> board" where
  "disjoint_subsets_subgrid order sub_grid_x sub_grid_y n b =
     (let cells = unit_cells (sub_grid_x * 3, sub_grid_x * 3 + 3) (sub_grid_y * 3, sub_grid_y * 3 + 3);
          sets = small_sets n (c_grid b) cells
      in b\<lparr>c_grid := eliminate (order (get_disjoint_subsets sets n)) cells (c_grid b)\<rparr>)"

text \<open>
  What the elimination loops do to the candidate set \<open>c\<close> of one cell of the unit: the
  subsets are visited in turn, and each is subtracted unless the set, as it is by then,
  lies within it.
\<close>

definition eliminate_set :: "int set list \<Rightarrow> int set \<Rightarrow> int set" where
  "eliminate_set ds c = fold (\<lambda>d c'. if \<not> c' \<subseteq> d then c' - d else c') ds c"

definition cells_within :: "nat \<Rightarrow> nat \<Rightarrow> (nat \<times> nat) list \<Rightarrow> bool" where
  "cells_within w h cells \<longleftrightarrow> list_all (\<lambda>(x, y). x < w \<and> y < h) cells"

text \<open>
  The rule in the words of the specification: every discovered subset is applied to
  the candidate sets as they were before the call, so a cell loses each subset that
  does not contain its candidate set of before the call.
\<close>

definition snapshot_rule :: "int set list \<Rightarrow> int set \<Rightarrow> int set" where
  "snapshot_rule found c = c - \<Union>(set (filter (\<lambda>d. \<not> c \<subseteq> d) found))"

section \<open>Loading a puzzle\<close>

text \<open>
  \<^verbatim>\<open>init()\<close> reads nine lines with \<^verbatim>\<open>readline()\<close>, which returns the empty string once
  the file is exhausted. The file is the list of its lines. \<^verbatim>\<open>line[x]\<close> raises
  \<^verbatim>\<open>IndexError\<close> past the end of the line and \<^verbatim>\<open>int\<close> raises \<^verbatim>\<open>ValueError\<close> on a character
  that is not a digit; nothing else is checked. An exception leaves the module-level
  variables as they are at that moment, so a failure carries the board reached.
\<close>

datatype error = IndexError | ValueError

definition is_digit :: "char \<Rightarrow> bool" where
  "is_digit c \<longleftrightarrow> (48 :: nat) \<le> of_char c \<and> of_char c \<le> (57 :: nat)"

text \<open>\<^verbatim>\<open>int(c)\<close> for a string of one character.\<close>

definition int_of_char :: "char \<Rightarrow> error + int" where
  "int_of_char c = (if is_digit c then Inr (int (of_char c) - 48) else Inl ValueError)"

text \<open>The module-level variables before \<^verbatim>\<open>init()\<close> runs (lines 32-41).\<close>

definition initial_board :: board where
  "initial_board =
     \<lparr>m_grid = replicate grid_l [],
      c_grid = replicate grid_l (replicate grid_l {}),
      col_set = replicate grid_l {},
      row_set = replicate grid_l {},
      s_grid_set = replicate sub_h (replicate sub_l {})\<rparr>"

text \<open>The body of the inner loop of the first pass (lines 50-54), at column \<open>x\<close> of row \<open>y\<close>.\<close>

definition load_cell :: "string \<Rightarrow> nat \<Rightarrow> nat \<Rightarrow> board \<Rightarrow> error \<times> board + board" where
  "load_cell line y x b =
     (if length line \<le> x then Inl (IndexError, b)
      else case int_of_char (line ! x) of
        Inl e \<Rightarrow> Inl (e, b)
      | Inr v \<Rightarrow>
          (let b1 = b\<lparr>m_grid := (m_grid b)[x := m_grid b ! x @ [v]]\<rparr>
           in if line ! x \<noteq> CHR ''0''
              then Inr (b1\<lparr>col_set := (col_set b1)[x := insert v (col_set b1 ! x)],
                          row_set := (row_set b1)[y := insert v (row_set b1 ! y)],
                          s_grid_set := gput (s_grid_set b1) (x div sub_l) (y div sub_h)
                            (insert v (gget (s_grid_set b1) (x div sub_l) (y div sub_h)))\<rparr>)
              else Inr b1))"

fun load_cells :: "string \<Rightarrow> nat \<Rightarrow> nat list \<Rightarrow> board \<Rightarrow> error \<times> board + board" where
  "load_cells line y [] b = Inr b"
| "load_cells line y (x # xs) b =
     (case load_cell line y x b of Inl e \<Rightarrow> Inl e | Inr b' \<Rightarrow> load_cells line y xs b')"

definition readline :: "string list \<Rightarrow> string \<times> string list" where
  "readline puzzle = (case puzzle of [] \<Rightarrow> ([], []) | line # rest \<Rightarrow> (line, rest))"

fun load_rows :: "string list \<Rightarrow> nat list \<Rightarrow> board \<Rightarrow> error \<times> board + board" where
  "load_rows puzzle [] b = Inr b"
| "load_rows puzzle (y # ys) b =
     (case load_cells (fst (readline puzzle)) y [0..<grid_l] b of
        Inl e \<Rightarrow> Inl e
      | Inr b' \<Rightarrow> load_rows (snd (readline puzzle)) ys b')"

text \<open>The second pass (lines 57-61): the candidate set of every blank square.\<close>

definition candidates_at :: "nat \<Rightarrow> nat \<Rightarrow> board \<Rightarrow> board" where
  "candidates_at y x b =
     (if gget (m_grid b) x y = 0
      then (let solved_set = row_set b ! y \<union> col_set b ! x
                               \<union> gget (s_grid_set b) (x div sub_l) (y div sub_h)
            in b\<lparr>c_grid := gput (c_grid b) x y (full_set - solved_set)\<rparr>)
      else b)"

definition fill_candidates :: "board \<Rightarrow> board" where
  "fill_candidates b = fold (\<lambda>y. fold (candidates_at y) [0..<grid_l]) [0..<grid_l] b"


definition init :: "string list \<Rightarrow> error \<times> board + board" where
  "init puzzle =
     (case load_rows puzzle [0..<grid_l] initial_board of
        Inl e \<Rightarrow> Inl e
      | Inr b \<Rightarrow> Inr (fill_candidates b))"



section \<open>Solved boards\<close>

text \<open>\<^verbatim>\<open>is_solved()\<close> of \<^verbatim>\<open>sudoku_final.py\<close>: no square has a candidate left.\<close>

definition is_solved :: "board \<Rightarrow> bool" where
  "is_solved b \<longleftrightarrow>
     list_all (\<lambda>x. list_all (\<lambda>y. \<not> card (gget (c_grid b) x y) \<noteq> 0) [0..<grid_l]) [0..<grid_l]"

text \<open>\<^verbatim>\<open>is_solved()\<close> of \<^verbatim>\<open>sudoku_old.py\<close>: every row has nine solved values.\<close>

definition is_solved_old :: "board \<Rightarrow> bool" where
  "is_solved_old b \<longleftrightarrow> list_all (\<lambda>y. \<not> card (row_set b ! y) \<noteq> 9) [0..<9]"

section \<open>Hidden singles and claiming (\<^verbatim>\<open>sudoku_old.py\<close>)\<close>


text \<open>The counting loop of the hidden-single functions: \<open>(count, prev)\<close> over the cells of a unit.\<close>

definition count_candidate :: "int \<Rightarrow> int set grid \<Rightarrow> (nat \<times> nat) list \<Rightarrow> nat \<times> nat \<times> nat" where
  "count_candidate candidate g cells =
     fold (\<lambda>(x, y) (count, prev). if candidate \<in> gget g x y then (count + 1, (x, y)) else (count, prev))
       cells (0, (0, 0))"

text \<open>\<^verbatim>\<open>single_sq_candidate_row(y)\<close>.\<close>

definition single_sq_candidate_row :: "(int set \<Rightarrow> int list) \<Rightarrow> nat \<Rightarrow> board \<Rightarrow> board" where
  "single_sq_candidate_row vorder y b =
     fold (\<lambda>candidate b'.
             (case count_candidate candidate (c_grid b') (map (\<lambda>x. (x, y)) [0..<9]) of
                (count, (prev_x, _)) \<Rightarrow>
                  if count = 1 then pencil_in candidate prev_x y b' else b'))
       (vorder (full_set - row_set b ! y)) b"

text \<open>\<^verbatim>\<open>single_sq_candidate_col(x)\<close>.\<close>

definition single_sq_candidate_col :: "(int set \<Rightarrow> int list) \<Rightarrow> nat \<Rightarrow> board \<Rightarrow> board" where
  "single_sq_candidate_col vorder x b =
     fold (\<lambda>candidate b'.
             (case count_candidate candidate (c_grid b') (map (\<lambda>y. (x, y)) [0..<9]) of
                (count, (_, prev_y)) \<Rightarrow>
                  if count = 1 then pencil_in candidate x prev_y b' else b'))
       (vorder (full_set - col_set b ! x)) b"

text \<open>\<^verbatim>\<open>single_sq_candidate_subgrid(sub_grid_x, sub_grid_y)\<close>.\<close>

definition single_sq_candidate_subgrid ::
  "(int set \<Rightarrow> int list) \<Rightarrow> nat \<Rightarrow> nat \<Rightarrow> board \<Rightarrow> board" where
  "single_sq_candidate_subgrid vorder sub_grid_x sub_grid_y b =
     fold (\<lambda>candidate b'.
             (case count_candidate candidate (c_grid b')
                     (unit_cells (sub_grid_x * 3, sub_grid_x * 3 + 3)
                                 (sub_grid_y * 3, sub_grid_y * 3 + 3)) of
                (count, (prev_x, prev_y)) \<Rightarrow>
                  if count = 1 then pencil_in candidate prev_x prev_y b' else b'))
       (vorder (full_set - gget (s_grid_set b) sub_grid_x sub_grid_y)) b"

text \<open>
  \<^verbatim>\<open>number_claiming_row(sub_grid_x, sub_grid_y)\<close>: the candidates of each sub-row, those that
  lie in one sub-row only, and their removal from the rest of the row.
\<close>

definition subrow_sets :: "nat \<Rightarrow> nat \<Rightarrow> int set grid \<Rightarrow> int set list" where
  "subrow_sets sub_grid_x sub_grid_y g =
     fold (\<lambda>y. fold (\<lambda>x ss. ss[y mod 3 := ss ! (y mod 3) \<union> gget g x y])
                  [sub_grid_x * 3..<sub_grid_x * 3 + 3])
       [sub_grid_y * 3..<sub_grid_y * 3 + 3] [{}, {}, {}]"

definition claimed_of :: "int set list \<Rightarrow> int set list" where
  "claimed_of ss =
     [ss ! 0 - (ss ! 1 \<union> ss ! 2), ss ! 1 - (ss ! 0 \<union> ss ! 2), ss ! 2 - (ss ! 0 \<union> ss ! 1)]"

definition number_claiming_row :: "(int set \<Rightarrow> int list) \<Rightarrow> nat \<Rightarrow> nat \<Rightarrow> board \<Rightarrow> board" where
  "number_claiming_row vorder sub_grid_x sub_grid_y b =
     (let claimed = claimed_of (subrow_sets sub_grid_x sub_grid_y (c_grid b))
      in b\<lparr>c_grid :=
             fold (\<lambda>sub_row.
                     fold (\<lambda>claimant.
                             fold (\<lambda>x g. if x div 3 \<noteq> sub_grid_x
                                          then discard g x (sub_grid_y * 3 + sub_row) claimant
                                          else g)
                               [0..<9])
                       (vorder (claimed ! sub_row)))
               [0..<3] (c_grid b)\<rparr>)"

text \<open>\<^verbatim>\<open>number_claiming_col(sub_grid_x, sub_grid_y)\<close>.\<close>

definition subcol_sets :: "nat \<Rightarrow> nat \<Rightarrow> int set grid \<Rightarrow> int set list" where
  "subcol_sets sub_grid_x sub_grid_y g =
     fold (\<lambda>x. fold (\<lambda>y ss. ss[x mod 3 := ss ! (x mod 3) \<union> gget g x y])
                  [sub_grid_y * 3..<sub_grid_y * 3 + 3])
       [sub_grid_x * 3..<sub_grid_x * 3 + 3] [{}, {}, {}]"

definition number_claiming_col :: "(int set \<Rightarrow> int list) \<Rightarrow> nat \<Rightarrow> nat \<Rightarrow> board \<Rightarrow> board" where
  "number_claiming_col vorder sub_grid_x sub_grid_y b =
     (let claimed = claimed_of (subcol_sets sub_grid_x sub_grid_y (c_grid b))
      in b\<lparr>c_grid :=
             fold (\<lambda>sub_col.
                     fold (\<lambda>claimant.
                             fold (\<lambda>y g. if y div 3 \<noteq> sub_grid_y
                                          then discard g (sub_grid_x * 3 + sub_col) y claimant
                                          else g)
                               [0..<9])
                       (vorder (claimed ! sub_col)))
               [0..<3] (c_grid b)\<rparr>)"

section \<open>The drivers\<close>

text \<open>\<^verbatim>\<open>iterator(func, *args)\<close> of \<^verbatim>\<open>sudoku_final.py\<close>: every row and column, then every sub-grid.\<close>

definition iterator :: "(nat \<times> nat \<Rightarrow> nat \<times> nat \<Rightarrow> board \<Rightarrow> board) \<Rightarrow> board \<Rightarrow> board" where
  "iterator func b =
     (let b1 = fold (\<lambda>sq b'. func (sq, sq + 1) (0, grid_l) (func (0, grid_l) (sq, sq + 1) b'))
                 [0..<grid_l] b
      in fold (\<lambda>s_grid_y.
                 fold (\<lambda>s_grid_x. func (s_grid_x * sub_l, s_grid_x * sub_l + sub_l)
                                        (s_grid_y * sub_h, s_grid_y * sub_h + sub_h))
                   [0..<sub_h])
           [0..<sub_l] b1)"

text \<open>\<^verbatim>\<open>iter_over_line\<close> and \<^verbatim>\<open>iter_over_subgrids\<close> of \<^verbatim>\<open>sudoku_old.py\<close>.\<close>

definition iter_over_line :: "(nat \<Rightarrow> board \<Rightarrow> board) \<Rightarrow> board \<Rightarrow> board" where
  "iter_over_line func b = fold func [0..<9] b"

definition iter_over_subgrids :: "(nat \<Rightarrow> nat \<Rightarrow> board \<Rightarrow> board) \<Rightarrow> board \<Rightarrow> board" where
  "iter_over_subgrids func b =
     fold (\<lambda>sub_grid_y. fold (\<lambda>sub_grid_x. func sub_grid_x sub_grid_y) [0..<3]) [0..<3] b"

text \<open>One pass of the loop body of \<^verbatim>\<open>main()\<close> (final, lines 166-169), before the test.\<close>

definition main_round :: "(int set list \<Rightarrow> int set list) \<Rightarrow> board \<Rightarrow> board" where
  "main_round order b =
     (let b1 = fold write_solution [0..<grid_l] b
      in fold (\<lambda>n. iterator (\<lambda>x_range y_range. disjoint_subsets order x_range y_range n))
           [2..<5] b1)"

text \<open>One pass of the loop body of \<^verbatim>\<open>solve()\<close> (old, lines 296-305), before the test.\<close>

definition solve_round ::
  "(int set list \<Rightarrow> int set list) \<Rightarrow> (int set \<Rightarrow> int list) \<Rightarrow> board \<Rightarrow> board" where
  "solve_round order vorder b =
     (let b1 = iter_over_line single_candidate_square b;
          b2 = iter_over_line (single_sq_candidate_row vorder) b1;
          b3 = iter_over_line (single_sq_candidate_col vorder) b2;
          b4 = iter_over_subgrids (single_sq_candidate_subgrid vorder) b3;
          b5 = iter_over_subgrids (number_claiming_row vorder) b4;
          b6 = iter_over_subgrids (number_claiming_col vorder) b5
      in fold (\<lambda>n b'. iter_over_subgrids (\<lambda>sx sy. disjoint_subsets_subgrid order sx sy n)
                        (iter_over_line (\<lambda>x. disjoint_subsets_col order x n)
                          (iter_over_line (\<lambda>y. disjoint_subsets_row order y n) b')))
           [2..<5] b6)"

text \<open>
  The loop \<^verbatim>\<open>for x in range(100)\<close> of both drivers, from the value \<open>x\<close> of the loop
  variable on. The drivers return nothing: when the test succeeds they print the grid
  and \<^verbatim>\<open>break\<close> (\<open>Solved\<close>); when the range is exhausted they print nothing (\<open>Stalled\<close>). The
  result also holds the number of rounds run and the board reached.
\<close>

datatype outcome = Solved | Stalled

function run_loop ::
  "(board \<Rightarrow> board) \<Rightarrow> (board \<Rightarrow> bool) \<Rightarrow> nat \<Rightarrow> board \<Rightarrow> outcome \<times> nat \<times> board" where
  "run_loop round solved x b =
     (if x < 100
      then (let b' = round b
            in if solved b' then (Solved, Suc x, b') else run_loop round solved (Suc x) b')
      else (Stalled, x, b))"
  by pat_completeness auto
termination
  by (relation "measure (\<lambda>(round, solved, x, b). 100 - x)") auto

text \<open>\<^verbatim>\<open>main()\<close> of \<^verbatim>\<open>sudoku_final.py\<close>, and \<^verbatim>\<open>init(); solve()\<close> of \<^verbatim>\<open>sudoku_old.py\<close>.\<close>

definition main ::
  "(int set list \<Rightarrow> int set list) \<Rightarrow> string list \<Rightarrow> error \<times> board + outcome \<times> nat \<times> board" where
  "main order puzzle =
     (case init puzzle of
        Inl e \<Rightarrow> Inl e
      | Inr b \<Rightarrow> Inr (run_loop (main_round order) is_solved 0 b))"

definition solve ::
  "(int set list \<Rightarrow> int set list) \<Rightarrow> (int set \<Rightarrow> int list) \<Rightarrow> board \<Rightarrow> outcome \<times> nat \<times> board" where
  "solve order vorder b = run_loop (solve_round order vorder) is_solved_old 0 b"

definition main_old ::
  "(int set list \<Rightarrow> int set list) \<Rightarrow> (int set \<Rightarrow> int list) \<Rightarrow> string list
     \<Rightarrow> error \<times> board + outcome \<times> nat \<times> board" where
  "main_old order vorder puzzle =
     (case init puzzle of
        Inl e \<Rightarrow> Inl e
      | Inr b \<Rightarrow> Inr (solve order vorder b))"

section \<open>Notions used in the proofs\<close>

text \<open>
  Monotone steps: on a well-formed board the step gives a well-formed board on which
  every candidate set is a part of what it was.
\<close>

definition shrinks :: "board \<Rightarrow> board \<Rightarrow> bool" where
  "shrinks b b' \<longleftrightarrow>
     well_formed b' \<and>
     (\<forall>x < grid_l. \<forall>y < grid_l. gget (c_grid b') x y \<subseteq> gget (c_grid b) x y)"

definition shrinking :: "(board \<Rightarrow> board) \<Rightarrow> bool" where
  "shrinking f \<longleftrightarrow> (\<forall>b. well_formed b \<longrightarrow> shrinks b (f b))"

text \<open>
  The three hidden-single functions have one shape: for every value not in the unit's
  solved-value set, count the cells of the unit that hold it and place it when there is
  one. (In a row the source keeps only \<open>prev_x\<close> and in a column only \<open>prev_y\<close>; the
  other coordinate of the cell found is the row or column itself.)
\<close>

definition hidden_single ::
  "(int set \<Rightarrow> int list) \<Rightarrow> (nat \<times> nat) list \<Rightarrow> int set \<Rightarrow> board \<Rightarrow> board" where
  "hidden_single vorder cells placed b =
     fold (\<lambda>candidate b'.
             (case count_candidate candidate (c_grid b') cells of
                (count, (prev_x, prev_y)) \<Rightarrow>
                  if count = 1 then pencil_in candidate prev_x prev_y b' else b'))
       (vorder (full_set - placed)) b"

definition grid_shrinking :: "(int set grid \<Rightarrow> int set grid) \<Rightarrow> bool" where
  "grid_shrinking k \<longleftrightarrow>
     (\<forall>g. shaped grid_l grid_l g \<longrightarrow>
        shaped grid_l grid_l (k g) \<and> (\<forall>x y. gget (k g) x y \<subseteq> gget g x y))"

text \<open>
  The board while the first pass of \<^verbatim>\<open>init()\<close> runs: \<open>k\<close> rows are loaded and the next
  row is loaded up to column \<open>x\<close>.
\<close>

definition loading :: "nat \<Rightarrow> nat \<Rightarrow> board \<Rightarrow> bool" where
  "loading k x b \<longleftrightarrow>
     length (m_grid b) = grid_l \<and>
     (\<forall>i < grid_l. length (m_grid b ! i) = (if i < x then Suc k else k)) \<and>
     shaped grid_l grid_l (c_grid b) \<and>
     length (col_set b) = grid_l \<and> length (row_set b) = grid_l \<and>
     shaped sub_h sub_l (s_grid_set b)"



section \<open>Example boards\<close>

text \<open>
  An otherwise empty board whose row 0 has the candidate sets \<open>{5}\<close> and \<open>{5, 6}\<close> in
  columns 0 and 1.
\<close>

definition example_board :: board where
  "example_board =
     \<lparr>m_grid = replicate 9 (replicate 9 0),
      c_grid = gput (gput (replicate 9 (replicate 9 {})) 0 0 {5}) 1 0 {5, 6},
      col_set = replicate 9 {},
      row_set = replicate 9 {},
      s_grid_set = replicate 3 (replicate 3 {})\<rparr>"

text \<open>A blank board whose row 0 starts with the given candidate sets.\<close>

definition row_of :: "int set list \<Rightarrow> board" where
  "row_of cs =
     \<lparr>m_grid = replicate 9 (replicate 9 0),
      c_grid = map (\<lambda>x. (if x < length cs then cs ! x else {}) # replicate 8 {}) [0..<9],
      col_set = replicate 9 {},
      row_set = replicate 9 {},
      s_grid_set = replicate 3 (replicate 3 {})\<rparr>"

text \<open>
  Row 0 holds \<open>{1, 2}\<close>, \<open>{1, 2}\<close>, \<open>{1, 2, 3}\<close>, \<open>{1, 2, 4}\<close>: the values 1, 2, 3 are
  confined to the first three cells and 1, 2, 4 to cells 0, 1 and 3.
\<close>

definition overlap_board :: board where
  "overlap_board = row_of [{1, 2}, {1, 2}, {1, 2, 3}, {1, 2, 4}]"

text \<open>Two pairs, and a fifth cell with one value of each pair.\<close>

definition clash_board :: board where
  "clash_board = row_of [{1, 2}, {1, 2}, {3, 4}, {3, 4}, {1, 3}]"

text \<open>The triple of the docstring, \<open>{2, 4}\<close>, \<open>{2, 7}\<close>, \<open>{4, 7}\<close>, and two more cells.\<close>

definition triple_board :: board where
  "triple_board = row_of [{2, 4}, {2, 7}, {4, 7}, {2, 5, 9}, {4, 6}]"




text \<open>
  A solved grid with three squares blanked. The square \<open>(0, 0)\<close> keeps two candidates
  until 8 is placed at \<open>(1, 0)\<close>, which comes after it in the row, so the final solver
  places it in its second round.
\<close>

definition two_round_puzzle :: "string list" where
  "two_round_puzzle =
     [''003295417'', ''421867359'', ''795341862'', ''572134986'', ''046579123'',
      ''319682574'', ''138426795'', ''964758231'', ''257913648'']"





section \<open>Grids: reading after writing\<close>

lemma upt_split:
  assumes "x < n"
  shows "[0..<n] = [0..<x] @ x # [Suc x..<n]"
proof -
  have "[0..<n] = [0..<x] @ [x..<n]"
    using assms upt_add_eq_append [of 0 x "n - x"] by simp
  then show ?thesis using assms by (simp add: upt_conv_Cons)
qed

lemma gget_gput:
  assumes "shaped w h g" "x < w" "y < h"
  shows "gget (gput g x y v) x' y' = (if x' = x \<and> y' = y then v else gget g x' y')"
proof -
  from assms have lx: "x < length g" and ly: "y < length (g ! x)"
    by (auto simp: shaped_def list_all_length)
  show ?thesis
  proof (cases "x' = x")
    case True
    with lx ly show ?thesis by (simp add: gget_def gput_def)
  next
    case False
    then show ?thesis by (simp add: gget_def gput_def)
  qed
qed

lemma shaped_gput: "shaped w h g \<Longrightarrow> shaped w h (gput g x y v)"
  by (cases "x < length g") (auto simp: shaped_def gput_def list_all_length nth_list_update)

lemma shaped_replicate: "shaped w h (replicate w (replicate h a))"
  by (simp add: shaped_def list_all_iff)

lemma shaped_discard: "shaped w h g \<Longrightarrow> shaped w h (discard g x y v)"
  by (simp add: discard_def shaped_gput)

lemma gget_discard:
  assumes "shaped w h g" "x < w" "y < h"
  shows "gget (discard g x y v) x' y' =
           (if x' = x \<and> y' = y then gget g x' y' - {v} else gget g x' y')"
  using gget_gput [OF assms] by (simp add: discard_def)

lemma grid_eqI:
  assumes "shaped w h g" "shaped w h g'"
    and "\<And>x y. x < w \<Longrightarrow> y < h \<Longrightarrow> gget g x y = gget g' x y"
  shows "g = g'"
proof (rule nth_equalityI)
  show "length g = length g'" using assms(1,2) by (simp add: shaped_def)
next
  fix x assume x: "x < length g"
  with assms(1,2) have xw: "x < w" and l1: "length (g ! x) = h" and l2: "length (g' ! x) = h"
    by (auto simp: shaped_def list_all_length)
  show "g ! x = g' ! x"
  proof (rule nth_equalityI)
    show "length (g ! x) = length (g' ! x)" using l1 l2 by simp
  next
    fix y assume "y < length (g ! x)"
    with l1 have "y < h" by simp
    from assms(3) [OF xw this] show "g ! x ! y = g' ! x ! y" by (simp add: gget_def)
  qed
qed

lemma fold_discard_xs:
  assumes "shaped w h g" "cy < h" "list_all (\<lambda>cx. cx < w) xs"
  shows "shaped w h (fold (\<lambda>cx g'. discard g' cx cy v) xs g) \<and>
         (\<forall>x' y'. gget (fold (\<lambda>cx g'. discard g' cx cy v) xs g) x' y' =
            (if x' \<in> set xs \<and> y' = cy then gget g x' y' - {v} else gget g x' y'))"
  using assms
proof (induction xs arbitrary: g)
  case Nil
  then show ?case by simp
next
  case (Cons a xs)
  have s: "shaped w h (discard g a cy v)" using Cons.prems(1) by (rule shaped_discard)
  have a: "a < w" and r: "list_all (\<lambda>cx. cx < w) xs" using Cons.prems(3) by simp_all
  from Cons.IH [OF s Cons.prems(2) r] gget_discard [OF Cons.prems(1) a Cons.prems(2)]
  show ?case by auto
qed

lemma fold_discard_block:
  assumes "shaped w h g" "list_all (\<lambda>cy. cy < h) ys" "list_all (\<lambda>cx. cx < w) xs"
  shows "shaped w h (fold (\<lambda>cy. fold (\<lambda>cx g'. discard g' cx cy v) xs) ys g) \<and>
         (\<forall>x' y'. gget (fold (\<lambda>cy. fold (\<lambda>cx g'. discard g' cx cy v) xs) ys g) x' y' =
            (if x' \<in> set xs \<and> y' \<in> set ys then gget g x' y' - {v} else gget g x' y'))"
  using assms
proof (induction ys arbitrary: g)
  case Nil
  then show ?case by simp
next
  case (Cons a ys)
  have a: "a < h" and r: "list_all (\<lambda>cy. cy < h) ys" using Cons.prems(2) by simp_all
  note inner = fold_discard_xs [OF Cons.prems(1) a Cons.prems(3), of v]
  from Cons.IH [OF conjunct1 [OF inner] r Cons.prems(3)] conjunct2 [OF inner]
  show ?case by auto
qed

lemma fold_discard_cross:
  assumes "shaped n n g" "x < n" "y < n" "list_all (\<lambda>i. i < n) is"
  shows "shaped n n (fold (\<lambda>i g'. discard (discard g' x i v) i y v) is g) \<and>
         (\<forall>x' y'. gget (fold (\<lambda>i g'. discard (discard g' x i v) i y v) is g) x' y' =
            (if (x' = x \<and> y' \<in> set is) \<or> (y' = y \<and> x' \<in> set is)
             then gget g x' y' - {v} else gget g x' y'))"
  using assms
proof (induction "is" arbitrary: g)
  case Nil
  then show ?case by simp
next
  case (Cons a "is")
  have a: "a < n" and r: "list_all (\<lambda>i. i < n) is" using Cons.prems(4) by simp_all
  have s1: "shaped n n (discard g x a v)" using Cons.prems(1) by (rule shaped_discard)
  have s2: "shaped n n (discard (discard g x a v) a y v)" using s1 by (rule shaped_discard)
  note g1 = gget_discard [OF Cons.prems(1) Cons.prems(2) a, of v]
  note g2 = gget_discard [OF s1 a Cons.prems(3), of v]
  have step: "gget (discard (discard g x a v) a y v) x' y' =
      (if (x' = x \<and> y' = a) \<or> (x' = a \<and> y' = y) then gget g x' y' - {v} else gget g x' y')"
    for x' y'
    unfolding g2 g1 by auto
  from Cons.IH [OF s2 Cons.prems(2,3) r]
  show ?case unfolding fold_simps o_apply step by auto
qed

lemma remove_solution_spec:
  assumes "shaped grid_l grid_l g" "x < grid_l" "y < grid_l"
  shows "shaped grid_l grid_l (remove_solution v x y g)"
    and "gget (remove_solution v x y g) x' y' =
           (if same_unit x y x' y' \<and> x' < grid_l \<and> y' < grid_l then gget g x' y' - {v} else gget g x' y')"
proof -
  let ?xs = "[(x div sub_l) * sub_l..<(x div sub_l) * sub_l + sub_l]"
  let ?ys = "[(y div sub_h) * sub_h..<(y div sub_h) * sub_h + sub_h]"
  have bx: "list_all (\<lambda>cx. cx < grid_l) ?xs" and by': "list_all (\<lambda>cy. cy < grid_l) ?ys"
  proof -
    have "(x div 3) * 3 + 3 \<le> 9" "(y div 3) * 3 + 3 \<le> 9"
      using assms(2,3) by (simp_all add: grid_l_def)
    then show "list_all (\<lambda>cx. cx < grid_l) ?xs" "list_all (\<lambda>cy. cy < grid_l) ?ys"
      by (auto simp: list_all_iff grid_l_def sub_l_def sub_h_def)
  qed
  note blk = fold_discard_block [OF assms(1) by' bx, of v]
  have rng: "list_all (\<lambda>i. i < grid_l) [0..<grid_l]" by (simp add: list_all_iff)
  note crs = fold_discard_cross [OF conjunct1 [OF blk] assms(2,3) rng, of v]
  show "shaped grid_l grid_l (remove_solution v x y g)"
    using conjunct1 [OF crs] by (simp add: remove_solution_def Let_def)
  have "gget (remove_solution v x y g) x' y' = 
     (if (x' = x \<and> y' < grid_l) \<or> (y' = y \<and> x' < grid_l) \<or> (x' \<in> set ?xs \<and> y' \<in> set ?ys) then gget g x' y' - {v} else gget g x' y')"
    using conjunct2 [OF crs] conjunct2 [OF blk] by (auto simp: remove_solution_def Let_def)
  moreover have "x' \<in> set ?xs \<longleftrightarrow> x' div sub_l = x div sub_l" 
    by (auto simp: sub_l_def)
  moreover have "y' \<in> set ?ys \<longleftrightarrow> y' div sub_h = y div sub_h" 
    by (auto simp: sub_h_def)
  moreover have "x' div sub_l = x div sub_l \<Longrightarrow> x' < grid_l" using assms(2) unfolding sub_l_def grid_l_def by presburger
  moreover have "y' div sub_h = y div sub_h \<Longrightarrow> y' < grid_l" using assms(3) unfolding sub_h_def grid_l_def by presburger
  ultimately show "gget (remove_solution v x y g) x' y' =
           (if same_unit x y x' y' \<and> x' < grid_l \<and> y' < grid_l then gget g x' y' - {v} else gget g x' y')"
    using assms(2,3) by (auto simp: same_unit_def)
qed

section \<open>Placement: what a placement changes\<close>

lemma c_grid_pencil_in:
  assumes "well_formed b" "x < grid_l" "y < grid_l" "x' < grid_l" "y' < grid_l"
  shows "gget (c_grid (pencil_in v x y b)) x' y' =
           (if x' = x \<and> y' = y then {}
            else if same_unit x y x' y' then gget (c_grid b) x' y' - {v}
            else gget (c_grid b) x' y')"
proof -
  from assms(1) have s: "shaped grid_l grid_l (c_grid b)" by (simp add: well_formed_def)
  have s': "shaped grid_l grid_l (gput (c_grid b) x y {})" using s by (rule shaped_gput)
  show ?thesis
    using assms(4,5)
    by (simp add: pencil_in_def Let_def remove_solution_spec(2) [OF s' assms(2,3)]
        gget_gput [OF s assms(2,3)])
qed

lemma well_formed_pencil_in:
  assumes "well_formed b" "x < grid_l" "y < grid_l"
  shows "well_formed (pencil_in v x y b)"
  using assms
  by (simp add: well_formed_def pencil_in_def Let_def shaped_gput remove_solution_spec(1))

lemma c_grid_write_solution_at:
  assumes "well_formed b" "x < grid_l" "y < grid_l" "x' < grid_l" "y' < grid_l"
    and "card (gget (c_grid b) x y) = 1"
  shows "gget (c_grid (write_solution_at y x b)) x' y' =
           (if x' = x \<and> y' = y then {}
            else if same_unit x y x' y' then gget (c_grid b) x' y' - {the_elem (gget (c_grid b) x y)}
            else gget (c_grid b) x' y')"
proof -
  from assms(1) have s: "shaped grid_l grid_l (c_grid b)" by (simp add: well_formed_def)
  have s': "shaped grid_l grid_l (gput (c_grid b) x y {})" using s by (rule shaped_gput)
  show ?thesis
    using assms(4,5,6)
    by (simp add: write_solution_at_def Let_def remove_solution_spec(2) [OF s' assms(2,3)]
        gget_gput [OF s assms(2,3)])
qed

lemma well_formed_write_solution_at:
  assumes "well_formed b" "x < grid_l" "y < grid_l"
  shows "well_formed (write_solution_at y x b)"
  using assms
  by (simp add: well_formed_def write_solution_at_def Let_def shaped_gput remove_solution_spec(1))

lemma m_grid_pencil_in:
  assumes "well_formed b" "x < grid_l" "y < grid_l"
  shows "gget (m_grid (pencil_in v x y b)) x' y' =
           (if x' = x \<and> y' = y then v else gget (m_grid b) x' y')"
proof -
  from assms(1) have m: "shaped grid_l grid_l (m_grid b)" by (simp add: well_formed_def)
  show ?thesis by (simp add: pencil_in_def Let_def gget_gput [OF m assms(2,3)])
qed

lemma m_grid_write_solution_at:
  assumes "well_formed b" "x < grid_l" "y < grid_l"
  shows "gget (m_grid (write_solution_at y x b)) x' y' =
           (if x' = x \<and> y' = y \<and> card (gget (c_grid b) x y) = 1
            then the_elem (gget (c_grid b) x y) else gget (m_grid b) x' y')"
proof -
  from assms(1) have m: "shaped grid_l grid_l (m_grid b)" by (simp add: well_formed_def)
  show ?thesis by (simp add: write_solution_at_def Let_def gget_gput [OF m assms(2,3)])
qed

lemma write_solution_at_subset:
  assumes "well_formed b" "x < grid_l" "y < grid_l" "x' < grid_l" "y' < grid_l"
  shows "gget (c_grid (write_solution_at y x b)) x' y' \<subseteq> gget (c_grid b) x' y'"
proof (cases "card (gget (c_grid b) x y) = 1")
  case True
  show ?thesis unfolding c_grid_write_solution_at [OF assms True] by auto
next
  case False
  then show ?thesis by (simp add: write_solution_at_def)
qed

lemma pencil_in_subset:
  assumes "well_formed b" "x < grid_l" "y < grid_l" "x' < grid_l" "y' < grid_l"
  shows "gget (c_grid (pencil_in v x y b)) x' y' \<subseteq> gget (c_grid b) x' y'"
  unfolding c_grid_pencil_in [OF assms] by auto

lemma fold_write_solution_at:
  assumes "well_formed b" "y < grid_l" "list_all (\<lambda>x. x < grid_l) xs"
  shows "well_formed (fold (write_solution_at y) xs b) \<and>
         (\<forall>x' < grid_l. \<forall>y' < grid_l.
            gget (c_grid (fold (write_solution_at y) xs b)) x' y' \<subseteq> gget (c_grid b) x' y') \<and>
         (\<forall>x' y'. x' \<notin> set xs \<or> y' \<noteq> y \<longrightarrow>
            gget (m_grid (fold (write_solution_at y) xs b)) x' y' = gget (m_grid b) x' y')"
  using assms
proof (induction xs arbitrary: b)
  case Nil
  then show ?case by simp
next
  case (Cons a xs)
  have a: "a < grid_l" and r: "list_all (\<lambda>x. x < grid_l) xs" using Cons.prems(3) by simp_all
  have w: "well_formed (write_solution_at y a b)"
    using Cons.prems(1) a Cons.prems(2) by (rule well_formed_write_solution_at)
  note ih = Cons.IH [OF w Cons.prems(2) r]
  have sub: "gget (c_grid (write_solution_at y a b)) x' y' \<subseteq> gget (c_grid b) x' y'"
    if "x' < grid_l" "y' < grid_l" for x' y'
    using write_solution_at_subset [OF Cons.prems(1) a Cons.prems(2) that] .
  have m: "gget (m_grid (write_solution_at y a b)) x' y' = gget (m_grid b) x' y'"
    if "x' \<noteq> a \<or> y' \<noteq> y" for x' y'
    using that by (auto simp: m_grid_write_solution_at [OF Cons.prems(1) a Cons.prems(2)])
  show ?case
  proof (intro conjI allI impI)
    show "well_formed (fold (write_solution_at y) (a # xs) b)" using ih by simp
  next
    fix x' y' assume "x' < grid_l" "y' < grid_l"
    with ih sub [of x' y'] show "gget (c_grid (fold (write_solution_at y) (a # xs) b)) x' y' \<subseteq> gget (c_grid b) x' y'"
      by fastforce
  next
    fix x' y' assume "x' \<notin> set (a # xs) \<or> y' \<noteq> y"
    then have 1: "x' \<notin> set xs \<or> y' \<noteq> y" and 2: "x' \<noteq> a \<or> y' \<noteq> y" by auto
    from ih 1 have "gget (m_grid (fold (write_solution_at y) xs (write_solution_at y a b))) x' y'
        = gget (m_grid (write_solution_at y a b)) x' y'" by blast
    with m [OF 2] show "gget (m_grid (fold (write_solution_at y) (a # xs) b)) x' y' = gget (m_grid b) x' y'"
      by simp
  qed
qed

lemma well_formed_example_board: "well_formed example_board"
  by (simp add: example_board_def well_formed_def shaped_gput shaped_replicate grid_l_def sub_l_def sub_h_def)

text \<open>
  Claim C4 (placement propagation). A placement of \<open>v\<close> at \<open>(x, y)\<close> leaves the cell
  holding \<open>v\<close> with an empty candidate set, and \<open>v\<close> in no candidate set of row \<open>y\<close>,
  column \<open>x\<close> or the sub-grid of \<open>(x, y)\<close>. For \<^verbatim>\<open>pencil_in\<close> this is the state after
  the call. For \<^verbatim>\<open>write_solution(y)\<close>, which places when its loop reaches a column \<open>x\<close>
  whose cell has one candidate left, it holds right after that iteration and still
  holds when the call returns.
\<close>

theorem placement_propagation:
  assumes "well_formed b" "x < grid_l" "y < grid_l"
  shows "(gget (m_grid (pencil_in v x y b)) x y = v \<and>
          gget (c_grid (pencil_in v x y b)) x y = {} \<and>
          (\<forall>x' < grid_l. \<forall>y' < grid_l. same_unit x y x' y' \<longrightarrow>
             v \<notin> gget (c_grid (pencil_in v x y b)) x' y')) \<and>
         (let b\<^sub>x = fold (write_solution_at y) [0..<x] b;
              s = the_elem (gget (c_grid b\<^sub>x) x y)
          in card (gget (c_grid b\<^sub>x) x y) = 1 \<longrightarrow>
             (gget (m_grid (write_solution_at y x b\<^sub>x)) x y = s \<and>
              gget (c_grid (write_solution_at y x b\<^sub>x)) x y = {} \<and>
              (\<forall>x' < grid_l. \<forall>y' < grid_l. same_unit x y x' y' \<longrightarrow>
                 s \<notin> gget (c_grid (write_solution_at y x b\<^sub>x)) x' y')) \<and>
             (gget (m_grid (write_solution y b)) x y = s \<and>
              gget (c_grid (write_solution y b)) x y = {} \<and>
              (\<forall>x' < grid_l. \<forall>y' < grid_l. same_unit x y x' y' \<longrightarrow>
                 s \<notin> gget (c_grid (write_solution y b)) x' y')))"
proof -
  have old: "gget (m_grid (pencil_in v x y b)) x y = v \<and>
          gget (c_grid (pencil_in v x y b)) x y = {} \<and>
          (\<forall>x' < grid_l. \<forall>y' < grid_l. same_unit x y x' y' \<longrightarrow>
             v \<notin> gget (c_grid (pencil_in v x y b)) x' y')"
    using assms by (simp add: c_grid_pencil_in m_grid_pencil_in)
  define bx where "bx = fold (write_solution_at y) [0..<x] b"
  define s where "s = the_elem (gget (c_grid bx) x y)"
  define b1 where "b1 = write_solution_at y x bx"
  have r0: "list_all (\<lambda>x. x < grid_l) [0..<x]" using assms(2) by (simp add: list_all_iff)
  have wx: "well_formed bx"
    using fold_write_solution_at [OF assms(1,3) r0] by (simp add: bx_def)
  have w1: "well_formed b1"
    unfolding b1_def using wx assms(2,3) by (rule well_formed_write_solution_at)
  have r1: "list_all (\<lambda>x. x < grid_l) [Suc x..<grid_l]" by (simp add: list_all_iff)
  have split: "[0..<grid_l] = [0..<x] @ x # [Suc x..<grid_l]"
    using assms(2) by (rule upt_split)
  have whole: "write_solution y b = fold (write_solution_at y) [Suc x..<grid_l] b1"
    by (simp add: write_solution_def split b1_def bx_def)
  note rest = fold_write_solution_at [OF w1 assms(3) r1, folded whole]
  have final: "card (gget (c_grid bx) x y) = 1 \<longrightarrow>
             (gget (m_grid b1) x y = s \<and>
              gget (c_grid b1) x y = {} \<and>
              (\<forall>x' < grid_l. \<forall>y' < grid_l. same_unit x y x' y' \<longrightarrow>
                 s \<notin> gget (c_grid b1) x' y')) \<and>
             (gget (m_grid (write_solution y b)) x y = s \<and>
              gget (c_grid (write_solution y b)) x y = {} \<and>
              (\<forall>x' < grid_l. \<forall>y' < grid_l. same_unit x y x' y' \<longrightarrow>
                 s \<notin> gget (c_grid (write_solution y b)) x' y'))"
  proof
    assume c: "card (gget (c_grid bx) x y) = 1"
    have step: "gget (m_grid b1) x y = s \<and>
              gget (c_grid b1) x y = {} \<and>
              (\<forall>x' < grid_l. \<forall>y' < grid_l. same_unit x y x' y' \<longrightarrow>
                 s \<notin> gget (c_grid b1) x' y')"
      unfolding b1_def s_def using wx assms(2,3) c
      by (simp add: c_grid_write_solution_at m_grid_write_solution_at)
    have m: "gget (m_grid (write_solution y b)) x y = gget (m_grid b1) x y"
      using rest by simp
    have sub: "gget (c_grid (write_solution y b)) x' y' \<subseteq> gget (c_grid b1) x' y'"
      if "x' < grid_l" "y' < grid_l" for x' y'
      using rest that by blast
    have "gget (c_grid (write_solution y b)) x y = {}"
      using sub [OF assms(2,3)] step by simp
    moreover have "s \<notin> gget (c_grid (write_solution y b)) x' y'"
      if "x' < grid_l" "y' < grid_l" "same_unit x y x' y'" for x' y'
      using sub [OF that(1,2)] step that by blast
    ultimately show "(gget (m_grid b1) x y = s \<and>
              gget (c_grid b1) x y = {} \<and>
              (\<forall>x' < grid_l. \<forall>y' < grid_l. same_unit x y x' y' \<longrightarrow>
                 s \<notin> gget (c_grid b1) x' y')) \<and>
             (gget (m_grid (write_solution y b)) x y = s \<and>
              gget (c_grid (write_solution y b)) x y = {} \<and>
              (\<forall>x' < grid_l. \<forall>y' < grid_l. same_unit x y x' y' \<longrightarrow>
                 s \<notin> gget (c_grid (write_solution y b)) x' y'))"
      using step m by simp
  qed
  show ?thesis
    using old final unfolding Let_def b1_def s_def bx_def by blast
qed

theorem placement_propagation_witness:
  "well_formed example_board \<and>
   gget (m_grid (pencil_in 5 0 0 example_board)) 0 0 = 5 \<and>
   gget (c_grid (pencil_in 5 0 0 example_board)) 0 0 = {} \<and>
   5 \<notin> gget (c_grid (pencil_in 5 0 0 example_board)) 1 0 \<and>
   card (gget (c_grid example_board) 0 0) = 1 \<and>
   gget (m_grid (write_solution 0 example_board)) 0 0 = 5 \<and>
   gget (c_grid (write_solution 0 example_board)) 0 0 = {} \<and>
   5 \<notin> gget (c_grid (write_solution 0 example_board)) 1 0"
proof -
  have wf: "well_formed example_board" by (rule well_formed_example_board)
  have r: "(0::nat) < grid_l" "(1::nat) < grid_l" by (simp_all add: grid_l_def)
  have u: "same_unit 0 0 1 0" by (simp add: same_unit_def)
  have e: "gget (c_grid example_board) 0 0 = {5}"
    by (simp add: example_board_def gget_def gput_def)
  from placement_propagation [OF wf r(1) r(1), of 5] e r(2) u
  show ?thesis using wf by (simp add: Let_def)
qed

section \<open>Placement: idempotence and frame\<close>

lemma list_update_twice:
  assumes "\<And>a. f (f a) = f a"
  shows "xs[i := f (xs[i := f (xs ! i)] ! i)] = xs[i := f (xs ! i)]"
  using assms by (cases "i < length xs") (simp_all add: list_update_beyond)

lemma gput_twice:
  assumes "\<And>a. f (f a) = f a"
  shows "gput (gput g i j (f (gget g i j))) i j (f (gget (gput g i j (f (gget g i j))) i j))
           = gput g i j (f (gget g i j))"
proof (cases "i < length g")
  case True
  show ?thesis
  proof (cases "j < length (g ! i)")
    case True
    with \<open>i < length g\<close> assms show ?thesis by (simp add: gput_def gget_def)
  next
    case False
    with \<open>i < length g\<close> show ?thesis by (simp add: gput_def gget_def list_update_beyond)
  qed
next
  case False
  then show ?thesis by (simp add: gput_def gget_def list_update_beyond)
qed

lemma gput_same: "gput (gput g x y v) x y v = gput g x y v"
  by (cases "x < length g") (simp_all add: gput_def list_update_beyond)

lemma remove_solution_twice:
  assumes "shaped grid_l grid_l g" "x < grid_l" "y < grid_l"
  shows "remove_solution v x y (gput (remove_solution v x y (gput g x y {})) x y {})
           = remove_solution v x y (gput g x y {})"
proof -
  let ?g1 = "gput g x y {}"
  let ?r1 = "remove_solution v x y ?g1"
  let ?g2 = "gput ?r1 x y {}"
  have s1: "shaped grid_l grid_l ?g1" using assms(1) by (rule shaped_gput)
  have sr1: "shaped grid_l grid_l ?r1" using s1 assms(2,3) by (rule remove_solution_spec(1))
  have s2: "shaped grid_l grid_l ?g2" using sr1 by (rule shaped_gput)
  have sr2: "shaped grid_l grid_l (remove_solution v x y ?g2)"
    using s2 assms(2,3) by (rule remove_solution_spec(1))
  show ?thesis
  proof (rule grid_eqI [OF sr2 sr1])
    fix x' y' assume "x' < grid_l" "y' < grid_l"
    then show "gget (remove_solution v x y ?g2) x' y' = gget ?r1 x' y'"
      unfolding remove_solution_spec(2) [OF s2 assms(2,3)] gget_gput [OF sr1 assms(2,3)]
        remove_solution_spec(2) [OF s1 assms(2,3)] gget_gput [OF assms]
      by auto
  qed
qed

lemma pencil_in_twice:
  assumes "well_formed b" "x < grid_l" "y < grid_l"
  shows "pencil_in v x y (pencil_in v x y b) = pencil_in v x y b"
proof -
  from assms(1) have c: "shaped grid_l grid_l (c_grid b)" by (simp add: well_formed_def)
  have i: "insert v (insert v a) = insert v a" for a by simp
  show ?thesis
    unfolding pencil_in_def Let_def
    by (simp add: gput_same remove_solution_twice [OF c assms(2,3)]
        list_update_twice [where f = "insert v"] gput_twice [where f = "insert v"])
qed

lemma write_solution_at_twice:
  assumes "well_formed b" "x < grid_l" "y < grid_l"
  shows "write_solution_at y x (write_solution_at y x b) = write_solution_at y x b"
proof (cases "card (gget (c_grid b) x y) = 1")
  case True
  have "gget (c_grid (write_solution_at y x b)) x y = {}"
    using c_grid_write_solution_at [OF assms assms(2,3) True] by simp
  then have "card (gget (c_grid (write_solution_at y x b)) x y) \<noteq> 1" by simp
  then show ?thesis by (subst write_solution_at_def) simp
next
  case False
  then show ?thesis by (simp add: write_solution_at_def)
qed

text \<open>
  Claim C9 (idempotence of placement). Placing the same value at the same cell twice
  in succession gives the same board (grid, candidate sets and the three families of
  solved-value sets) as placing it once: for \<^verbatim>\<open>pencil_in\<close>, where the value is an
  argument, and for the placement of \<^verbatim>\<open>write_solution\<close> at one column, which finds the
  candidate set empty the second time and does nothing.
\<close>

theorem place_idempotent:
  assumes "well_formed b" "x < grid_l" "y < grid_l"
  shows "pencil_in v x y (pencil_in v x y b) = pencil_in v x y b \<and>
         write_solution_at y x (write_solution_at y x b) = write_solution_at y x b"
  using assms by (simp add: pencil_in_twice write_solution_at_twice)

theorem place_idempotent_witness:
  "well_formed example_board \<and>
   pencil_in 5 0 0 (pencil_in 5 0 0 example_board) = pencil_in 5 0 0 example_board \<and>
   write_solution_at 0 0 (write_solution_at 0 0 example_board) = write_solution_at 0 0 example_board"
proof -
  have r: "(0::nat) < grid_l" by (simp add: grid_l_def)
  from place_idempotent [OF well_formed_example_board r r, of 5]
  show ?thesis using well_formed_example_board by simp
qed

text \<open>
  Claim C10 (placement frame). A placement at \<open>(x, y)\<close> leaves the candidate set of
  every cell outside row \<open>y\<close>, column \<open>x\<close> and the sub-grid of \<open>(x, y)\<close> as it was, and
  the grid value of every cell other than \<open>(x, y)\<close> as it was.
\<close>

theorem placement_frame:
  assumes "well_formed b" "x < grid_l" "y < grid_l" "x' < grid_l" "y' < grid_l"
  shows "(\<not> same_unit x y x' y' \<longrightarrow>
            gget (c_grid (pencil_in v x y b)) x' y' = gget (c_grid b) x' y' \<and>
            gget (c_grid (write_solution_at y x b)) x' y' = gget (c_grid b) x' y') \<and>
         (x' \<noteq> x \<or> y' \<noteq> y \<longrightarrow>
            gget (m_grid (pencil_in v x y b)) x' y' = gget (m_grid b) x' y' \<and>
            gget (m_grid (write_solution_at y x b)) x' y' = gget (m_grid b) x' y')"
proof (intro conjI impI)
  assume n: "\<not> same_unit x y x' y'"
  then have ne: "\<not> (x' = x \<and> y' = y)" by (auto simp: same_unit_def)
  show "gget (c_grid (pencil_in v x y b)) x' y' = gget (c_grid b) x' y'"
    using n ne unfolding c_grid_pencil_in [OF assms] by auto
  show "gget (c_grid (write_solution_at y x b)) x' y' = gget (c_grid b) x' y'"
  proof (cases "card (gget (c_grid b) x y) = 1")
    case True
    show ?thesis using n ne unfolding c_grid_write_solution_at [OF assms True] by auto
  next
    case False
    then show ?thesis by (simp add: write_solution_at_def)
  qed
next
  assume "x' \<noteq> x \<or> y' \<noteq> y"
  then show "gget (m_grid (pencil_in v x y b)) x' y' = gget (m_grid b) x' y'"
    and "gget (m_grid (write_solution_at y x b)) x' y' = gget (m_grid b) x' y'"
    by (auto simp: m_grid_pencil_in [OF assms(1-3)] m_grid_write_solution_at [OF assms(1-3)])
qed

theorem placement_frame_witness:
  "well_formed example_board \<and> \<not> same_unit 0 0 4 4 \<and>
   gget (c_grid (pencil_in 5 0 0 example_board)) 4 4 = gget (c_grid example_board) 4 4 \<and>
   gget (c_grid (write_solution_at 0 0 example_board)) 4 4 = gget (c_grid example_board) 4 4 \<and>
   gget (m_grid (pencil_in 5 0 0 example_board)) 4 4 = gget (m_grid example_board) 4 4 \<and>
   gget (m_grid (write_solution_at 0 0 example_board)) 4 4 = gget (m_grid example_board) 4 4"
proof -
  have r: "(0::nat) < grid_l" "(4::nat) < grid_l" by (simp_all add: grid_l_def)
  have n: "\<not> same_unit 0 0 4 4" by (simp add: same_unit_def sub_l_def sub_h_def)
  from placement_frame [OF well_formed_example_board r(1) r(1) r(2) r(2), of 5] n
  show ?thesis using well_formed_example_board by simp
qed

section \<open>Disjoint subsets: the elimination loops\<close>

lemma eliminate_at_spec:
  assumes "shaped w h g" "x < w" "y < h"
  shows "shaped w h (eliminate_at d (x, y) g)"
    and "gget (eliminate_at d (x, y) g) x' y' =
           (if x' = x \<and> y' = y \<and> \<not> gget g x y \<subseteq> d then gget g x y - d else gget g x' y')"
  using assms by (simp_all add: eliminate_at_def shaped_gput gget_gput [OF assms])

lemma fold_eliminate_at:
  assumes "shaped w h g" "cells_within w h cells"
  shows "shaped w h (fold (eliminate_at d) cells g) \<and>
         (\<forall>x' y'. gget (fold (eliminate_at d) cells g) x' y' =
            (if (x', y') \<in> set cells \<and> \<not> gget g x' y' \<subseteq> d
             then gget g x' y' - d else gget g x' y'))"
  using assms
proof (induction cells arbitrary: g)
  case Nil
  then show ?case by simp
next
  case (Cons c cells)
  obtain x y where c: "c = (x, y)" by (cases c)
  from Cons.prems(2) c have x: "x < w" and y: "y < h" and r: "cells_within w h cells"
    by (simp_all add: cells_within_def)
  note one = eliminate_at_spec [OF Cons.prems(1) x y, of d]
  from Cons.IH [OF one(1) r]
  show ?case unfolding fold_simps o_apply c one(2) by auto
qed

lemma eliminate_spec:
  assumes "shaped w h g" "cells_within w h cells"
  shows "shaped w h (eliminate ds cells g) \<and>
         (\<forall>x' y'. gget (eliminate ds cells g) x' y' =
            (if (x', y') \<in> set cells then eliminate_set ds (gget g x' y') else gget g x' y'))"
  using assms(1)
proof (induction ds arbitrary: g)
  case Nil
  then show ?case by (simp add: eliminate_def eliminate_set_def)
next
  case (Cons d ds)
  note pass = fold_eliminate_at [OF Cons.prems assms(2), of d]
  from Cons.IH [OF conjunct1 [OF pass]]
  show ?case
    unfolding eliminate_def eliminate_set_def fold_simps o_apply conjunct2 [OF pass, rule_format]
    by auto
qed

lemma eliminate_set_subset: "eliminate_set ds c \<subseteq> c"
proof (induction ds arbitrary: c)
  case Nil
  show ?case by (simp add: eliminate_set_def)
next
  case (Cons d ds)
  have "eliminate_set (d # ds) c = eliminate_set ds (if \<not> c \<subseteq> d then c - d else c)"
    by (simp add: eliminate_set_def)
  also have "\<dots> \<subseteq> (if \<not> c \<subseteq> d then c - d else c)" by (rule Cons.IH)
  also have "\<dots> \<subseteq> c" by auto
  finally show ?case .
qed

lemma eliminate_set_Cons:
  "eliminate_set (d # ds) c = eliminate_set ds (if \<not> c \<subseteq> d then c - d else c)"
  by (simp add: eliminate_set_def)

lemma eliminate_set_within_or_disjoint:
  assumes "D \<in> set ds"
  shows "eliminate_set ds c \<subseteq> D \<or> eliminate_set ds c \<inter> D = {}"
  using assms
proof (induction ds arbitrary: c)
  case Nil
  then show ?case by simp
next
  case (Cons d ds)
  let ?c1 = "if \<not> c \<subseteq> d then c - d else c"
  show ?case
  proof (cases "d = D")
    case True
    have "?c1 \<subseteq> D \<or> ?c1 \<inter> D = {}" using True by auto
    moreover have "eliminate_set ds ?c1 \<subseteq> ?c1" by (rule eliminate_set_subset)
    ultimately show ?thesis unfolding eliminate_set_Cons by blast
  next
    case False
    with Cons.prems have "D \<in> set ds" by simp
    from Cons.IH [OF this] show ?thesis unfolding eliminate_set_Cons .
  qed
qed

lemma eliminate_set_unchanged:
  assumes "\<forall>d \<in> set ds. c \<subseteq> d \<or> c \<inter> d = {}"
  shows "eliminate_set ds c = c"
  using assms
proof (induction ds)
  case Nil
  show ?case by (simp add: eliminate_set_def)
next
  case (Cons d ds)
  from Cons.prems have "c \<subseteq> d \<or> c \<inter> d = {}" by simp
  then have "(if \<not> c \<subseteq> d then c - d else c) = c" by auto
  with Cons show ?case unfolding eliminate_set_Cons by simp
qed

lemma eliminate_set_single: "eliminate_set [D] c = (if c \<subseteq> D then c else c - D)"
  by (simp add: eliminate_set_def)

lemma eliminate_set_avoiding:
  assumes "e \<in> c" "\<forall>d \<in> set ds. e \<in> d \<longrightarrow> c \<subseteq> d"
  shows "eliminate_set ds c = c - \<Union>{d \<in> set ds. e \<notin> d}"
  using assms
proof (induction ds arbitrary: c)
  case Nil
  show ?case by (simp add: eliminate_set_def)
next
  case (Cons d ds)
  show ?case
  proof (cases "c \<subseteq> d")
    case True
    with Cons.prems(1) have "e \<in> d" by blast
    then have "{d' \<in> set (d # ds). e \<notin> d'} = {d' \<in> set ds. e \<notin> d'}" by auto
    moreover have "eliminate_set ds c = c - \<Union>{d' \<in> set ds. e \<notin> d'}"
      using Cons.IH [of c] Cons.prems by simp
    ultimately show ?thesis unfolding eliminate_set_Cons using True by simp
  next
    case False
    with Cons.prems(2) have n: "e \<notin> d" by auto
    with Cons.prems(1) have 1: "e \<in> c - d" by simp
    have 2: "\<forall>d' \<in> set ds. e \<in> d' \<longrightarrow> c - d \<subseteq> d'" using Cons.prems(2) by auto
    have "{d' \<in> set (d # ds). e \<notin> d'} = insert d {d' \<in> set ds. e \<notin> d'}" using n by auto
    then have "c - \<Union>{d' \<in> set (d # ds). e \<notin> d'} = (c - d) - \<Union>{d' \<in> set ds. e \<notin> d'}"
      by auto
    with Cons.IH [OF 1 2] show ?thesis unfolding eliminate_set_Cons using False by simp
  qed
qed

lemma eliminate_set_snapshot:
  fixes ds :: "int set list" and c :: "int set"
  defines "R \<equiv> c - \<Union>{d \<in> set ds. \<not> c \<subseteq> d}"
  shows "R \<subseteq> eliminate_set ds c" and "R \<noteq> {} \<Longrightarrow> eliminate_set ds c = R"
proof -
  have eq: "eliminate_set ds c = R" if "e \<in> R" for e
  proof -
    from that have ec: "e \<in> c" and av: "\<forall>d \<in> set ds. e \<in> d \<longrightarrow> c \<subseteq> d"
      by (auto simp: R_def)
    have "{d \<in> set ds. e \<notin> d} = {d \<in> set ds. \<not> c \<subseteq> d}" using ec av by auto
    with eliminate_set_avoiding [OF ec av] show ?thesis by (simp add: R_def)
  qed
  show "R \<subseteq> eliminate_set ds c" using eq by auto
  show "R \<noteq> {} \<Longrightarrow> eliminate_set ds c = R" using eq by auto
qed

section \<open>Disjoint subsets: discovery\<close>

lemma combinations_map: "combinations (map f xs) n = map (map f) (combinations xs n)"
  by (induction xs n rule: combinations.induct) simp_all

lemma filter_in_combinations: "filter Q xs \<in> set (combinations xs (length (filter Q xs)))"
proof (induction xs)
  case Nil
  show ?case by simp
next
  case (Cons x xs)
  show ?case
  proof (cases "Q x")
    case True
    with Cons show ?thesis by simp
  next
    case False
    show ?thesis
    proof (cases "length (filter Q xs)")
      case 0
      then have "filter Q xs = []" by simp
      with False show ?thesis by simp
    next
      case (Suc k)
      with Cons False show ?thesis by simp
    qed
  qed
qed

lemma superset_of_Union: "superset_of cs = \<Union>(set cs)"
proof -
  have "fold (\<lambda>c superset. superset \<union> c) cs a = a \<union> \<Union>(set cs)" for a
    by (induction cs arbitrary: a) auto
  then show ?thesis by (simp add: superset_of_def)
qed

lemma set_unit_cells:
  "set (unit_cells x_range y_range) =
     {(x, y). fst x_range \<le> x \<and> x < snd x_range \<and> fst y_range \<le> y \<and> y < snd y_range}"
  by (auto simp: unit_cells_def)

lemma distinct_unit_cells: "distinct (unit_cells x_range y_range)"
proof -
  have "distinct (concat (map (\<lambda>y. map (\<lambda>x. (x, y)) xs) ys))"
    if "distinct xs" "distinct ys" for xs ys :: "nat list"
    using that by (induction ys) (auto simp: distinct_map inj_on_def)
  then show ?thesis by (simp add: unit_cells_def)
qed

lemma cells_within_unit_cells:
  assumes "snd x_range \<le> w" "snd y_range \<le> h"
  shows "cells_within w h (unit_cells x_range y_range)"
  using assms by (auto simp: cells_within_def list_all_iff set_unit_cells)

lemma discovered:
  assumes "distinct cells" "P \<subseteq> set cells"
    and "\<forall>(x, y) \<in> P. 1 < card (gget g x y) \<and> card (gget g x y) \<le> n"
    and "card P = n" "card (\<Union>(x, y) \<in> P. gget g x y) = n"
  shows "(\<Union>(x, y) \<in> P. gget g x y) \<in> set (get_disjoint_subsets (small_sets n g cells) n)"
proof -
  let ?ok = "\<lambda>(x, y). 1 < card (gget g x y) \<and> card (gget g x y) \<le> n"
  let ?cand = "\<lambda>(x, y). gget g x y"
  let ?cells' = "filter ?ok cells"
  let ?chosen = "filter (\<lambda>c. c \<in> P) ?cells'"
  have d: "distinct ?chosen" using assms(1) by simp
  have s: "set ?chosen = P" using assms(2,3) by auto
  have l: "length ?chosen = n" using d s assms(4) distinct_card by fastforce
  have "?chosen \<in> set (combinations ?cells' n)"
    using filter_in_combinations [of "\<lambda>c. c \<in> P" ?cells'] l by simp
  then have "map ?cand ?chosen \<in> set (combinations (small_sets n g cells) n)"
    by (simp add: small_sets_def combinations_map)
  moreover have "superset_of (map ?cand ?chosen) = (\<Union>(x, y) \<in> P. gget g x y)"
    unfolding superset_of_Union using s by auto
  ultimately show ?thesis
    using assms(5) unfolding get_disjoint_subsets_def by force
qed

lemma c_grid_disjoint_subsets:
  assumes "well_formed b" "snd x_range \<le> grid_l" "snd y_range \<le> grid_l"
  shows "well_formed (disjoint_subsets order x_range y_range n b)"
    and "gget (c_grid (disjoint_subsets order x_range y_range n b)) x y =
           (if (x, y) \<in> set (unit_cells x_range y_range)
            then eliminate_set
                   (order (get_disjoint_subsets
                      (small_sets n (c_grid b) (unit_cells x_range y_range)) n))
                   (gget (c_grid b) x y)
            else gget (c_grid b) x y)"
proof -
  from assms(1) have s: "shaped grid_l grid_l (c_grid b)" by (simp add: well_formed_def)
  note e = eliminate_spec [OF s cells_within_unit_cells [OF assms(2,3)]]
  show "well_formed (disjoint_subsets order x_range y_range n b)"
    using assms(1) conjunct1 [OF e] by (simp add: well_formed_def disjoint_subsets_def Let_def)
  show "gget (c_grid (disjoint_subsets order x_range y_range n b)) x y =
           (if (x, y) \<in> set (unit_cells x_range y_range)
            then eliminate_set
                   (order (get_disjoint_subsets
                      (small_sets n (c_grid b) (unit_cells x_range y_range)) n))
                   (gget (c_grid b) x y)
            else gget (c_grid b) x y)"
    using conjunct2 [OF e] by (simp add: disjoint_subsets_def Let_def)
qed

lemma old_disjoint_subsets:
  "disjoint_subsets_row order y n b = disjoint_subsets order (0, grid_l) (y, y + 1) n b"
  "disjoint_subsets_col order x n b = disjoint_subsets order (x, x + 1) (0, grid_l) n b"
  "disjoint_subsets_subgrid order sub_grid_x sub_grid_y n b =
     disjoint_subsets order (sub_grid_x * sub_l, sub_grid_x * sub_l + sub_l)
       (sub_grid_y * sub_h, sub_grid_y * sub_h + sub_h) n b"
  by (simp_all add: disjoint_subsets_row_def disjoint_subsets_col_def
      disjoint_subsets_subgrid_def disjoint_subsets_def unit_cells_def grid_l_def sub_l_def
      sub_h_def Let_def)

lemma well_formed_row_of: "well_formed (row_of cs)"
  by (simp add: row_of_def well_formed_def shaped_replicate grid_l_def sub_l_def sub_h_def)
     (simp add: shaped_def list_all_iff)

lemma gget_row_of:
  "x < 9 \<Longrightarrow> gget (c_grid (row_of cs)) x 0 = (if x < length cs then cs ! x else {})"
  by (simp add: row_of_def gget_def)

lemma distinct_singleton:
  assumes "distinct xs" "set xs = {a}"
  shows "xs = [a]"
proof (cases xs)
  case Nil
  with assms(2) show ?thesis by simp
next
  case (Cons x ys)
  with assms(2) have x: "x = a" and sub: "set ys \<subseteq> {a}" by auto
  from Cons assms(1) x have "a \<notin> set ys" by simp
  with sub have "ys = []" by (cases ys) auto
  with Cons x show ?thesis by simp
qed

lemma set_order_remdups: "set_order remdups"
  by (simp add: set_order_def)

lemma set_order_rev_remdups: "set_order (rev \<circ> remdups)"
  by (simp add: set_order_def)

text \<open>
  Claim C1 (disjoint-subset elimination), as amended. When \<open>n\<close> distinct cells \<open>P\<close> of a
  unit have candidate sets of more than one and at most \<open>n\<close> values whose union \<open>D\<close> has
  exactly \<open>n\<close> values, one invocation on that unit discovers \<open>D\<close>, and afterwards every
  cell of the unit has a candidate set that is part of its earlier one and that either
  lies within \<open>D\<close> or holds no value of \<open>D\<close>. When \<open>D\<close> is the only subset discovered, every
  cell whose candidate set is not a subset of \<open>D\<close> loses exactly the values of \<open>D\<close> and all
  other cells, the \<open>n\<close> contributing cells among them, are unaffected. In general a
  contributing cell is unaffected when each discovered subset contains its candidate
  set or is disjoint from it. The three functions of \<^verbatim>\<open>sudoku_old.py\<close> are the function of
  \<^verbatim>\<open>sudoku_final.py\<close> on a row, a column and a sub-grid.
\<close>

theorem disjoint_subset_elimination:
  assumes "well_formed b" "set_order order"
    and "snd x_range \<le> grid_l" "snd y_range \<le> grid_l"
    and "P \<subseteq> set (unit_cells x_range y_range)" "card P = n"
    and "\<forall>(x, y) \<in> P. 1 < card (gget (c_grid b) x y) \<and> card (gget (c_grid b) x y) \<le> n"
    and "card (\<Union>(x, y) \<in> P. gget (c_grid b) x y) = n"
  shows "(let D = (\<Union>(x, y) \<in> P. gget (c_grid b) x y);
              cells = unit_cells x_range y_range;
              found = get_disjoint_subsets (small_sets n (c_grid b) cells) n;
              b' = disjoint_subsets order x_range y_range n b
          in D \<in> set found \<and>
             (\<forall>(x, y) \<in> set cells.
                gget (c_grid b') x y \<subseteq> gget (c_grid b) x y \<and>
                (gget (c_grid b') x y \<subseteq> D \<or> gget (c_grid b') x y \<inter> D = {})) \<and>
             (set found = {D} \<longrightarrow>
                (\<forall>(x, y) \<in> set cells.
                   gget (c_grid b') x y =
                     (if gget (c_grid b) x y \<subseteq> D then gget (c_grid b) x y
                      else gget (c_grid b) x y - D))) \<and>
             (\<forall>(x, y) \<in> P.
                (\<forall>d \<in> set found. gget (c_grid b) x y \<subseteq> d \<or> gget (c_grid b) x y \<inter> d = {}) \<longrightarrow>
                gget (c_grid b') x y = gget (c_grid b) x y)) \<and>
         disjoint_subsets_row order y\<^sub>0 n b = disjoint_subsets order (0, grid_l) (y\<^sub>0, y\<^sub>0 + 1) n b \<and>
         disjoint_subsets_col order x\<^sub>0 n b = disjoint_subsets order (x\<^sub>0, x\<^sub>0 + 1) (0, grid_l) n b \<and>
         disjoint_subsets_subgrid order sx sy n b =
           disjoint_subsets order (sx * sub_l, sx * sub_l + sub_l) (sy * sub_h, sy * sub_h + sub_h) n b"
proof -
  define D where "D = (\<Union>(x, y) \<in> P. gget (c_grid b) x y)"
  define cells where "cells = unit_cells x_range y_range"
  define found where "found = get_disjoint_subsets (small_sets n (c_grid b) cells) n"
  define b' where "b' = disjoint_subsets order x_range y_range n b"
  from assms(2) have so: "set (order found) = set found" and di: "distinct (order found)"
    by (simp_all add: set_order_def)
  have cg: "gget (c_grid b') x y = eliminate_set (order found) (gget (c_grid b) x y)"
    if "(x, y) \<in> set cells" for x y
    using that c_grid_disjoint_subsets(2) [OF assms(1,3,4), of order n x y]
    by (simp add: b'_def found_def cells_def)
  have 1: "D \<in> set found"
    unfolding D_def found_def cells_def
    using distinct_unit_cells assms(5) assms(7) assms(6) assms(8) by (rule discovered)
  have 2: "gget (c_grid b') x y \<subseteq> gget (c_grid b) x y \<and>
           (gget (c_grid b') x y \<subseteq> D \<or> gget (c_grid b') x y \<inter> D = {})"
    if "(x, y) \<in> set cells" for x y
    unfolding cg [OF that]
    using eliminate_set_subset eliminate_set_within_or_disjoint [of D "order found"] 1 so
    by simp
  have 3: "gget (c_grid b') x y =
             (if gget (c_grid b) x y \<subseteq> D then gget (c_grid b) x y else gget (c_grid b) x y - D)"
    if "set found = {D}" "(x, y) \<in> set cells" for x y
  proof -
    from that(1) so have "set (order found) = {D}" by simp
    with di have "order found = [D]" by (rule distinct_singleton)
    then show ?thesis unfolding cg [OF that(2)] by (simp add: eliminate_set_single)
  qed
  have 4: "gget (c_grid b') x y = gget (c_grid b) x y"
    if "(x, y) \<in> P" "\<forall>d \<in> set found. gget (c_grid b) x y \<subseteq> d \<or> gget (c_grid b) x y \<inter> d = {}"
    for x y
  proof -
    from that(1) assms(5) have "(x, y) \<in> set cells" by (auto simp: cells_def)
    then show ?thesis
      unfolding cg [OF \<open>(x, y) \<in> set cells\<close>]
      using eliminate_set_unchanged [of "order found" "gget (c_grid b) x y"] that(2) so by simp
  qed
  have "D \<in> set found \<and>
        (\<forall>(x, y) \<in> set cells.
           gget (c_grid b') x y \<subseteq> gget (c_grid b) x y \<and>
           (gget (c_grid b') x y \<subseteq> D \<or> gget (c_grid b') x y \<inter> D = {})) \<and>
        (set found = {D} \<longrightarrow>
           (\<forall>(x, y) \<in> set cells.
              gget (c_grid b') x y =
                (if gget (c_grid b) x y \<subseteq> D then gget (c_grid b) x y
                 else gget (c_grid b) x y - D))) \<and>
        (\<forall>(x, y) \<in> P.
           (\<forall>d \<in> set found. gget (c_grid b) x y \<subseteq> d \<or> gget (c_grid b) x y \<inter> d = {}) \<longrightarrow>
           gget (c_grid b') x y = gget (c_grid b) x y)"
  proof (intro conjI impI ballI)
    show "D \<in> set found" by (rule 1)
  next
    fix c assume a: "c \<in> set cells"
    obtain x y where c: "c = (x, y)" by (cases c)
    from a 2 [of x y] show "case c of (x, y) \<Rightarrow>
        gget (c_grid b') x y \<subseteq> gget (c_grid b) x y \<and>
        (gget (c_grid b') x y \<subseteq> D \<or> gget (c_grid b') x y \<inter> D = {})"
      by (simp add: c)
  next
    fix c assume a: "set found = {D}" "c \<in> set cells"
    obtain x y where c: "c = (x, y)" by (cases c)
    from a 3 [of x y] show "case c of (x, y) \<Rightarrow>
        gget (c_grid b') x y =
          (if gget (c_grid b) x y \<subseteq> D then gget (c_grid b) x y else gget (c_grid b) x y - D)"
      by (simp add: c)
  next
    fix c assume a: "c \<in> P"
    obtain x y where c: "c = (x, y)" by (cases c)
    from a 4 [of x y] show "case c of (x, y) \<Rightarrow>
        (\<forall>d \<in> set found. gget (c_grid b) x y \<subseteq> d \<or> gget (c_grid b) x y \<inter> d = {}) \<longrightarrow>
        gget (c_grid b') x y = gget (c_grid b) x y"
      by (simp add: c)
  qed
  then have main: "let D = (\<Union>(x, y) \<in> P. gget (c_grid b) x y);
              cells = unit_cells x_range y_range;
              found = get_disjoint_subsets (small_sets n (c_grid b) cells) n;
              b' = disjoint_subsets order x_range y_range n b
          in D \<in> set found \<and>
             (\<forall>(x, y) \<in> set cells.
                gget (c_grid b') x y \<subseteq> gget (c_grid b) x y \<and>
                (gget (c_grid b') x y \<subseteq> D \<or> gget (c_grid b') x y \<inter> D = {})) \<and>
             (set found = {D} \<longrightarrow>
                (\<forall>(x, y) \<in> set cells.
                   gget (c_grid b') x y =
                     (if gget (c_grid b) x y \<subseteq> D then gget (c_grid b) x y
                      else gget (c_grid b) x y - D))) \<and>
             (\<forall>(x, y) \<in> P.
                (\<forall>d \<in> set found. gget (c_grid b) x y \<subseteq> d \<or> gget (c_grid b) x y \<inter> d = {}) \<longrightarrow>
                gget (c_grid b') x y = gget (c_grid b) x y)"
    unfolding Let_def D_def cells_def found_def b'_def .
  show ?thesis
    using main by (simp only: old_disjoint_subsets simp_thms)
qed

lemma well_formed_boards:
  "well_formed overlap_board" "well_formed clash_board" "well_formed triple_board"
  unfolding overlap_board_def clash_board_def triple_board_def by (rule well_formed_row_of)+

theorem disjoint_subset_elimination_witness:
  "well_formed triple_board \<and> set_order remdups \<and>
   {2, 4, 7} \<in> set (get_disjoint_subsets
      (small_sets 3 (c_grid triple_board) (unit_cells (0, grid_l) (0, 1))) 3) \<and>
   gget (c_grid (disjoint_subsets remdups (0, grid_l) (0, 1) 3 triple_board)) 0 0 = {2, 4} \<and>
   gget (c_grid (disjoint_subsets remdups (0, grid_l) (0, 1) 3 triple_board)) 1 0 = {2, 7} \<and>
   gget (c_grid (disjoint_subsets remdups (0, grid_l) (0, 1) 3 triple_board)) 2 0 = {4, 7} \<and>
   gget (c_grid (disjoint_subsets remdups (0, grid_l) (0, 1) 3 triple_board)) 3 0 = {5, 9} \<and>
   gget (c_grid (disjoint_subsets remdups (0, grid_l) (0, 1) 3 triple_board)) 4 0 = {6}"
proof -
  let ?P = "{(0, 0), (1, 0), (2, 0)} :: (nat \<times> nat) set"
  let ?b = triple_board
  have wf: "well_formed ?b" unfolding triple_board_def by (rule well_formed_row_of)
  have r: "snd (0 :: nat, grid_l) \<le> grid_l" "snd (0 :: nat, 1 :: nat) \<le> grid_l"
    by (simp_all add: grid_l_def)
  have c: "gget (c_grid ?b) 0 0 = {2, 4}" "gget (c_grid ?b) 1 0 = {2, 7}"
    "gget (c_grid ?b) 2 0 = {4, 7}" "gget (c_grid ?b) 3 0 = {2, 5, 9}"
    "gget (c_grid ?b) 4 0 = {4, 6}"
    by (simp_all add: triple_board_def gget_row_of)
  note c' = c c [unfolded One_nat_def]
  have p: "?P \<subseteq> set (unit_cells (0, grid_l) (0, 1))"
    by (simp add: set_unit_cells grid_l_def)
  have k: "card ?P = 3" by simp
  have s: "\<forall>(x, y) \<in> ?P. 1 < card (gget (c_grid ?b) x y) \<and> card (gget (c_grid ?b) x y) \<le> 3"
    by (simp add: c')
  have D: "(\<Union>(x, y) \<in> ?P. gget (c_grid ?b) x y) = {2, 4, 7}" by (auto simp: c')
  have u: "card (\<Union>(x, y) \<in> ?P. gget (c_grid ?b) x y) = 3" unfolding D by simp
  have f: "set (get_disjoint_subsets (small_sets 3 (c_grid ?b) (unit_cells (0, grid_l) (0, 1))) 3)
             = {{2, 4, 7}}"
    by code_simp
  have m: "(0, 0) \<in> set (unit_cells (0, grid_l) (0, 1))" "(1, 0) \<in> set (unit_cells (0, grid_l) (0, 1))"
    "(2, 0) \<in> set (unit_cells (0, grid_l) (0, 1))" "(3, 0) \<in> set (unit_cells (0, grid_l) (0, 1))"
    "(4, 0) \<in> set (unit_cells (0, grid_l) (0, 1))"
    by (simp_all add: set_unit_cells grid_l_def)
  note t = disjoint_subset_elimination [OF wf set_order_remdups r p k s u, unfolded Let_def D f]
  from t have 1: "{2, 4, 7} \<in> {{2, 4, 7 :: int}}" by simp
  from t have all: "\<forall>(x, y) \<in> set (unit_cells (0, grid_l) (0, 1)).
      gget (c_grid (disjoint_subsets remdups (0, grid_l) (0, 1) 3 ?b)) x y =
        (if gget (c_grid ?b) x y \<subseteq> {2, 4, 7} then gget (c_grid ?b) x y
         else gget (c_grid ?b) x y - {2, 4, 7})"
    by blast
  have "gget (c_grid (disjoint_subsets remdups (0, grid_l) (0, 1) 3 ?b)) 0 0 = {2, 4}"
    using bspec [OF all m(1)] by (simp add: c)
  moreover have "gget (c_grid (disjoint_subsets remdups (0, grid_l) (0, 1) 3 ?b)) 1 0 = {2, 7}"
    using bspec [OF all m(2)] by (simp add: c')
  moreover have "gget (c_grid (disjoint_subsets remdups (0, grid_l) (0, 1) 3 ?b)) 2 0 = {4, 7}"
    using bspec [OF all m(3)] by (simp add: c)
  moreover have "gget (c_grid (disjoint_subsets remdups (0, grid_l) (0, 1) 3 ?b)) 3 0 = {5, 9}"
    using bspec [OF all m(4)] by (auto simp: c)
  moreover have "gget (c_grid (disjoint_subsets remdups (0, grid_l) (0, 1) 3 ?b)) 4 0 = {6}"
    using bspec [OF all m(5)] by (auto simp: c)
  ultimately show ?thesis using wf set_order_remdups f by simp
qed

text \<open>
  Claim C1 as stated fails. In row 0 of \<open>overlap_board\<close> the cells 0, 1, 2 hold \<open>{1, 2}\<close>,
  \<open>{1, 2}\<close>, \<open>{1, 2, 3}\<close>: three cells, each with two or three candidates, whose union
  \<open>{1, 2, 3}\<close> has three values. Cell 3 holds \<open>{1, 2, 4}\<close>, so \<open>{1, 2, 4}\<close> is a second disjoint
  subset (cells 0, 1, 3), and the contributing cell 2 is cut down to \<open>{3}\<close>, in whichever
  order the two subsets are visited.
\<close>

theorem disjoint_subset_elimination_counterexample:
  "gget (c_grid overlap_board) 0 0 = {1, 2} \<and>
   gget (c_grid overlap_board) 1 0 = {1, 2} \<and>
   gget (c_grid overlap_board) 2 0 = {1, 2, 3} \<and>
   card (gget (c_grid overlap_board) 0 0 \<union> gget (c_grid overlap_board) 1 0
           \<union> gget (c_grid overlap_board) 2 0) = 3 \<and>
   gget (c_grid (disjoint_subsets remdups (0, grid_l) (0, 1) 3 overlap_board)) 2 0 = {3} \<and>
   gget (c_grid (disjoint_subsets (rev \<circ> remdups) (0, grid_l) (0, 1) 3 overlap_board)) 2 0 = {3} \<and>
   gget (c_grid (disjoint_subsets_row remdups 0 3 overlap_board)) 2 0 = {3} \<and>
   gget (c_grid (disjoint_subsets_row (rev \<circ> remdups) 0 3 overlap_board)) 2 0 = {3}"
  by code_simp

section \<open>Disjoint subsets: the order of the eliminations\<close>

lemma eliminate_set_snapshot_rule:
  assumes "set ds = set found"
  shows "snapshot_rule found c \<subseteq> eliminate_set ds c"
    and "snapshot_rule found c \<noteq> {} \<Longrightarrow> eliminate_set ds c = snapshot_rule found c"
proof -
  have "snapshot_rule found c = c - \<Union>{d \<in> set ds. \<not> c \<subseteq> d}"
    using assms by (simp add: snapshot_rule_def)
  then show "snapshot_rule found c \<subseteq> eliminate_set ds c"
    and "snapshot_rule found c \<noteq> {} \<Longrightarrow> eliminate_set ds c = snapshot_rule found c"
    using eliminate_set_snapshot [of c ds] by simp_all
qed

text \<open>
  Claim C6 (snapshot determinism), as amended. The disjoint subsets are discovered from
  the candidate sets as they are before the call, but the eliminations test and update
  the sets as they are by then. For a cell of the unit, let \<open>R\<close> be what the snapshot
  rule gives. The cell always ends between \<open>R\<close> and its candidate set of before the call.
  When \<open>R\<close> is not empty the cell ends with exactly \<open>R\<close>, whatever the order in which the
  subsets are visited, so two orders agree on it. Cells outside the unit are untouched.
\<close>

theorem elimination_order:
  assumes "well_formed b" "set_order order" "set_order order'"
    and "snd x_range \<le> grid_l" "snd y_range \<le> grid_l"
  shows "(let cells = unit_cells x_range y_range;
              found = get_disjoint_subsets (small_sets n (c_grid b) cells) n;
              c = gget (c_grid b) x y;
              c\<^sub>1 = gget (c_grid (disjoint_subsets order x_range y_range n b)) x y;
              c\<^sub>2 = gget (c_grid (disjoint_subsets order' x_range y_range n b)) x y
          in if (x, y) \<in> set cells
             then snapshot_rule found c \<subseteq> c\<^sub>1 \<and> c\<^sub>1 \<subseteq> c \<and>
                  (snapshot_rule found c \<noteq> {} \<longrightarrow>
                     c\<^sub>1 = snapshot_rule found c \<and> c\<^sub>2 = snapshot_rule found c)
             else c\<^sub>1 = c \<and> c\<^sub>2 = c)"
proof -
  define cells where "cells = unit_cells x_range y_range"
  define found where "found = get_disjoint_subsets (small_sets n (c_grid b) cells) n"
  define c where "c = gget (c_grid b) x y"
  from assms(2,3) have so: "set (order found) = set found" "set (order' found) = set found"
    by (simp_all add: set_order_def)
  have cg: "gget (c_grid (disjoint_subsets ord x_range y_range n b)) x y =
              (if (x, y) \<in> set cells then eliminate_set (ord found) c else c)" for ord
    using c_grid_disjoint_subsets(2) [OF assms(1,4,5), of ord n x y]
    by (simp add: cells_def found_def c_def)
  have "if (x, y) \<in> set cells
        then snapshot_rule found c \<subseteq> gget (c_grid (disjoint_subsets order x_range y_range n b)) x y \<and>
             gget (c_grid (disjoint_subsets order x_range y_range n b)) x y \<subseteq> c \<and>
             (snapshot_rule found c \<noteq> {} \<longrightarrow>
                gget (c_grid (disjoint_subsets order x_range y_range n b)) x y = snapshot_rule found c \<and>
                gget (c_grid (disjoint_subsets order' x_range y_range n b)) x y = snapshot_rule found c)
        else gget (c_grid (disjoint_subsets order x_range y_range n b)) x y = c \<and>
             gget (c_grid (disjoint_subsets order' x_range y_range n b)) x y = c"
  proof (cases "(x, y) \<in> set cells")
    case True
    show ?thesis
      unfolding cg using True
      by (simp add: eliminate_set_snapshot_rule [OF so(1)] eliminate_set_snapshot_rule [OF so(2)]
          eliminate_set_subset)
  next
    case False
    then show ?thesis unfolding cg by simp
  qed
  then show ?thesis unfolding Let_def cells_def found_def c_def .
qed

theorem elimination_order_witness:
  "well_formed overlap_board \<and> set_order remdups \<and> set_order (rev \<circ> remdups) \<and>
   snapshot_rule (get_disjoint_subsets
      (small_sets 3 (c_grid overlap_board) (unit_cells (0, grid_l) (0, 1))) 3)
      (gget (c_grid overlap_board) 2 0) = {3} \<and>
   gget (c_grid (disjoint_subsets remdups (0, grid_l) (0, 1) 3 overlap_board)) 2 0 = {3} \<and>
   gget (c_grid (disjoint_subsets (rev \<circ> remdups) (0, grid_l) (0, 1) 3 overlap_board)) 2 0 = {3}"
proof -
  have r: "snd (0 :: nat, grid_l) \<le> grid_l" "snd (0 :: nat, 1 :: nat) \<le> grid_l"
    by (simp_all add: grid_l_def)
  have m: "(2, 0) \<in> set (unit_cells (0, grid_l) (0, 1))"
    by (simp add: set_unit_cells grid_l_def)
  have R: "snapshot_rule (get_disjoint_subsets
      (small_sets 3 (c_grid overlap_board) (unit_cells (0, grid_l) (0, 1))) 3)
      (gget (c_grid overlap_board) 2 0) = {3}"
    by code_simp
  from elimination_order [OF well_formed_boards(1) set_order_remdups set_order_rev_remdups r,
      of 3 2 0, unfolded Let_def R] m
  show ?thesis
    using well_formed_boards(1) set_order_remdups set_order_rev_remdups R by simp
qed

text \<open>
  Claim C6 as stated fails. Row 0 of \<open>clash_board\<close> holds \<open>{1, 2}\<close>, \<open>{1, 2}\<close>, \<open>{3, 4}\<close>,
  \<open>{3, 4}\<close>, \<open>{1, 3}\<close>. With \<open>n = 2\<close> the subsets \<open>{1, 2}\<close> and \<open>{3, 4}\<close> are discovered. Visited
  in this order they leave cell 4 with \<open>{3}\<close>: after losing 1 it lies within \<open>{3, 4}\<close> and
  is kept. Visited in the other order they leave it with \<open>{1}\<close>.
\<close>

theorem elimination_order_counterexample:
  "gget (c_grid (disjoint_subsets remdups (0, grid_l) (0, 1) 2 clash_board)) 4 0 = {3} \<and>
   gget (c_grid (disjoint_subsets (rev \<circ> remdups) (0, grid_l) (0, 1) 2 clash_board)) 4 0 = {1} \<and>
   gget (c_grid (disjoint_subsets_row remdups 0 2 clash_board)) 4 0 = {3} \<and>
   gget (c_grid (disjoint_subsets_row (rev \<circ> remdups) 0 2 clash_board)) 4 0 = {1} \<and>
   remdups (get_disjoint_subsets
      (small_sets 2 (c_grid clash_board) (unit_cells (0, grid_l) (0, 1))) 2) = [{1, 2}, {3, 4}] \<and>
   (rev \<circ> remdups) (get_disjoint_subsets
      (small_sets 2 (c_grid clash_board) (unit_cells (0, grid_l) (0, 1))) 2) = [{3, 4}, {1, 2}]"
  by code_simp

section \<open>Loading: when it fails\<close>











section \<open>Monotone steps\<close>

lemma shrinkingI:
  assumes "\<And>b. well_formed b \<Longrightarrow> well_formed (f b)"
    and "\<And>b x y. well_formed b \<Longrightarrow> x < grid_l \<Longrightarrow> y < grid_l \<Longrightarrow>
           gget (c_grid (f b)) x y \<subseteq> gget (c_grid b) x y"
  shows "shrinking f"
  using assms by (simp add: shrinking_def shrinks_def)

lemma shrinks_refl: "well_formed b \<Longrightarrow> shrinks b b"
  by (simp add: shrinks_def)

lemma shrinks_trans: "shrinks a b \<Longrightarrow> shrinks b c \<Longrightarrow> shrinks a c"
  unfolding shrinks_def by (meson subset_trans)

lemma shrinking_id: "shrinking (\<lambda>b. b)"
  by (simp add: shrinking_def shrinks_refl)

lemma shrinking_comp:
  assumes "shrinking f" "shrinking g"
  shows "shrinking (\<lambda>b. g (f b))"
  unfolding shrinking_def
proof (intro allI impI)
  fix b assume w: "well_formed b"
  with assms(1) have 1: "shrinks b (f b)" by (simp add: shrinking_def)
  then have "well_formed (f b)" by (simp add: shrinks_def)
  with assms(2) have "shrinks (f b) (g (f b))" by (simp add: shrinking_def)
  with 1 show "shrinks b (g (f b))" by (rule shrinks_trans)
qed

lemma shrinking_fold:
  assumes "\<And>a. a \<in> set xs \<Longrightarrow> shrinking (f a)"
  shows "shrinking (fold f xs)"
  using assms
proof (induction xs)
  case Nil
  show ?case using shrinking_id by (simp add: id_def)
next
  case (Cons a xs)
  have "shrinking (\<lambda>b. fold f xs (f a b))"
    by (rule shrinking_comp) (simp_all add: Cons)
  then show ?case by (simp add: comp_def)
qed

lemma shrinking_if:
  assumes "shrinking f"
  shows "shrinking (\<lambda>b. if P b then f b else b)"
  using assms by (simp add: shrinking_def shrinks_refl)

lemma shrinking_c_grid:
  assumes "\<And>b. well_formed b \<Longrightarrow> shaped grid_l grid_l (h b)"
    and "\<And>b x y. well_formed b \<Longrightarrow> x < grid_l \<Longrightarrow> y < grid_l \<Longrightarrow>
           gget (h b) x y \<subseteq> gget (c_grid b) x y"
  shows "shrinking (\<lambda>b. b\<lparr>c_grid := h b\<rparr>)"
  using assms by (intro shrinkingI) (simp_all add: well_formed_def)

lemma shrinking_pencil_in: "x < grid_l \<Longrightarrow> y < grid_l \<Longrightarrow> shrinking (pencil_in v x y)"
  by (intro shrinkingI) (simp_all add: well_formed_pencil_in pencil_in_subset)

lemma shrinking_write_solution_at:
  "x < grid_l \<Longrightarrow> y < grid_l \<Longrightarrow> shrinking (write_solution_at y x)"
  by (intro shrinkingI) (simp_all add: well_formed_write_solution_at write_solution_at_subset)

lemma shrinking_write_solution: "y < grid_l \<Longrightarrow> shrinking (write_solution y)"
  unfolding write_solution_def [abs_def]
  by (rule shrinking_fold) (simp add: shrinking_write_solution_at)

lemma shrinking_single_candidate_square: "y < grid_l \<Longrightarrow> shrinking (single_candidate_square y)"
  unfolding single_candidate_square_def [abs_def] single_candidate_square_at_def [abs_def]
proof (rule shrinking_fold)
  fix x assume "y < grid_l" "x \<in> set [0..<grid_l]"
  then have "shrinking (\<lambda>b. pencil_in (the_elem (gget (c_grid b) x y)) x y b)"
    using shrinking_pencil_in [of x y] by (simp add: shrinking_def)
  then show "shrinking (\<lambda>b. if card (gget (c_grid b) x y) = 1
                then pencil_in (the_elem (gget (c_grid b) x y)) x y b else b)"
    by (simp add: shrinking_def shrinks_refl)
qed

lemma shrinking_disjoint_subsets:
  assumes "snd x_range \<le> grid_l" "snd y_range \<le> grid_l"
  shows "shrinking (disjoint_subsets order x_range y_range n)"
proof (rule shrinkingI)
  fix b assume w: "well_formed b"
  show "well_formed (disjoint_subsets order x_range y_range n b)"
    using w assms by (rule c_grid_disjoint_subsets(1))
  fix x y
  show "gget (c_grid (disjoint_subsets order x_range y_range n b)) x y \<subseteq> gget (c_grid b) x y"
    unfolding c_grid_disjoint_subsets(2) [OF w assms] by (simp add: eliminate_set_subset)
qed

lemma shrinking_old_disjoint_subsets:
  "y < grid_l \<Longrightarrow> shrinking (disjoint_subsets_row order y n)"
  "x < grid_l \<Longrightarrow> shrinking (disjoint_subsets_col order x n)"
  "sx < 3 \<Longrightarrow> sy < 3 \<Longrightarrow> shrinking (disjoint_subsets_subgrid order sx sy n)"
  unfolding old_disjoint_subsets [abs_def]
  by (rule shrinking_disjoint_subsets; simp add: grid_l_def sub_l_def sub_h_def)+

section \<open>Hidden singles: the counting loop\<close>

lemma count_candidate_spec:
  "count_candidate v g cells =
     (length (filter (\<lambda>(x, y). v \<in> gget g x y) cells),
      if filter (\<lambda>(x, y). v \<in> gget g x y) cells = [] then (0, 0)
      else last (filter (\<lambda>(x, y). v \<in> gget g x y) cells))"
proof -
  let ?has = "\<lambda>(x, y). v \<in> gget g x y"
  let ?step = "\<lambda>(x, y) (count, prev). if v \<in> gget g x y then (count + 1, (x, y)) else (count, prev)"
  have "fold ?step cells (n, p) =
          (n + length (filter ?has cells),
           if filter ?has cells = [] then p else last (filter ?has cells))" for n p
  proof (induction cells arbitrary: n p)
    case Nil
    show ?case by simp
  next
    case (Cons c cells)
    obtain x y where c: "c = (x, y)" by (cases c)
    show ?case unfolding c by (simp add: Cons)
  qed
  then show ?thesis by (simp add: count_candidate_def)
qed

lemma count_candidate_one:
  assumes "count_candidate v g cells = (1, (px, py))"
  shows "(px, py) \<in> set cells" and "v \<in> gget g px py"
proof -
  let ?f = "filter (\<lambda>(x, y). v \<in> gget g x y) cells"
  from assms have l: "length ?f = 1" and p: "?f \<noteq> [] \<longrightarrow> (px, py) = last ?f"
    by (auto simp: count_candidate_spec split: if_splits)
  from l have ne: "?f \<noteq> []" by auto
  with p have "(px, py) \<in> set ?f" using last_in_set by metis
  then show "(px, py) \<in> set cells" and "v \<in> gget g px py" by auto
qed


lemma hidden_single_step_shrinking:
  assumes "cells_within grid_l grid_l cells"
  shows "shrinking (\<lambda>b'. case count_candidate candidate (c_grid b') cells of
                (count, (prev_x, prev_y)) \<Rightarrow>
                  if count = 1 then pencil_in candidate prev_x prev_y b' else b')"
  unfolding shrinking_def
proof (intro allI impI)
  fix b assume w: "well_formed b"
  obtain count px py where c: "count_candidate candidate (c_grid b) cells = (count, (px, py))"
    by (metis prod.exhaust)
  show "shrinks b (case count_candidate candidate (c_grid b) cells of
                (count, (prev_x, prev_y)) \<Rightarrow>
                  if count = 1 then pencil_in candidate prev_x prev_y b else b)"
  proof (cases "count = 1")
    case True
    with c count_candidate_one(1) [of candidate "c_grid b" cells px py]
    have "(px, py) \<in> set cells" by simp
    with assms have "px < grid_l" "py < grid_l" by (auto simp: cells_within_def list_all_iff)
    then have "shrinks b (pencil_in candidate px py b)"
      using shrinking_pencil_in [of px py candidate] w by (simp add: shrinking_def)
    with True c show ?thesis by simp
  next
    case False
    with c w show ?thesis by (simp add: shrinks_refl)
  qed
qed

lemma shrinking_hidden_single:
  assumes "cells_within grid_l grid_l cells"
  shows "shrinking (hidden_single vorder cells placed)"
  unfolding hidden_single_def [abs_def]
  by (rule shrinking_fold) (rule hidden_single_step_shrinking [OF assms])

lemma cells_within_line:
  "y < grid_l \<Longrightarrow> cells_within grid_l grid_l (map (\<lambda>x. (x, y)) [0..<9])"
  "x < grid_l \<Longrightarrow> cells_within grid_l grid_l (map (\<lambda>y. (x, y)) [0..<9])"
  by (simp_all add: cells_within_def list_all_iff grid_l_def)

lemma cells_within_subgrid:
  "sx < 3 \<Longrightarrow> sy < 3 \<Longrightarrow>
     cells_within grid_l grid_l (unit_cells (sx * 3, sx * 3 + 3) (sy * 3, sy * 3 + 3))"
  by (rule cells_within_unit_cells) (simp_all add: grid_l_def)

lemma single_sq_candidate_row_eq:
  "single_sq_candidate_row vorder y b =
     hidden_single vorder (map (\<lambda>x. (x, y)) [0..<9]) (row_set b ! y) b"
proof -
  let ?cells = "map (\<lambda>x. (x, y)) [0..<9]"
  have "(case count_candidate candidate (c_grid b') ?cells of
           (count, (prev_x, _)) \<Rightarrow> if count = 1 then pencil_in candidate prev_x y b' else b') =
        (case count_candidate candidate (c_grid b') ?cells of
           (count, (prev_x, prev_y)) \<Rightarrow>
             if count = 1 then pencil_in candidate prev_x prev_y b' else b')" for candidate b'
  proof -
    obtain count px py where c: "count_candidate candidate (c_grid b') ?cells = (count, (px, py))"
      by (metis prod.exhaust)
    show ?thesis
    proof (cases "count = 1")
      case True
      with c count_candidate_one(1) [of candidate "c_grid b'" ?cells px py]
      have "py = y" by auto
      with c show ?thesis by simp
    next
      case False
      with c show ?thesis by simp
    qed
  qed
  then show ?thesis by (simp add: single_sq_candidate_row_def hidden_single_def)
qed

lemma single_sq_candidate_col_eq:
  "single_sq_candidate_col vorder x b =
     hidden_single vorder (map (\<lambda>y. (x, y)) [0..<9]) (col_set b ! x) b"
proof -
  let ?cells = "map (\<lambda>y. (x, y)) [0..<9]"
  have "(case count_candidate candidate (c_grid b') ?cells of
           (count, (_, prev_y)) \<Rightarrow> if count = 1 then pencil_in candidate x prev_y b' else b') =
        (case count_candidate candidate (c_grid b') ?cells of
           (count, (prev_x, prev_y)) \<Rightarrow>
             if count = 1 then pencil_in candidate prev_x prev_y b' else b')" for candidate b'
  proof -
    obtain count px py where c: "count_candidate candidate (c_grid b') ?cells = (count, (px, py))"
      by (metis prod.exhaust)
    show ?thesis
    proof (cases "count = 1")
      case True
      with c count_candidate_one(1) [of candidate "c_grid b'" ?cells px py]
      have "px = x" by auto
      with c show ?thesis by simp
    next
      case False
      with c show ?thesis by simp
    qed
  qed
  then show ?thesis by (simp add: single_sq_candidate_col_def hidden_single_def)
qed

lemma single_sq_candidate_subgrid_eq:
  "single_sq_candidate_subgrid vorder sx sy b =
     hidden_single vorder (unit_cells (sx * 3, sx * 3 + 3) (sy * 3, sy * 3 + 3))
       (gget (s_grid_set b) sx sy) b"
  by (simp add: single_sq_candidate_subgrid_def hidden_single_def)

lemma shrinking_single_sq_candidate:
  "y < grid_l \<Longrightarrow> shrinking (single_sq_candidate_row vorder y)"
  "x < grid_l \<Longrightarrow> shrinking (single_sq_candidate_col vorder x)"
  "sx < 3 \<Longrightarrow> sy < 3 \<Longrightarrow> shrinking (single_sq_candidate_subgrid vorder sx sy)"
proof -
  have *: "shrinking (\<lambda>b. hidden_single vorder cells (p b) b)"
    if "cells_within grid_l grid_l cells" for cells and p :: "board \<Rightarrow> int set"
    using shrinking_hidden_single [OF that] by (simp add: shrinking_def)
  show "y < grid_l \<Longrightarrow> shrinking (single_sq_candidate_row vorder y)"
    unfolding single_sq_candidate_row_eq [abs_def] by (rule *) (rule cells_within_line)
  show "x < grid_l \<Longrightarrow> shrinking (single_sq_candidate_col vorder x)"
    unfolding single_sq_candidate_col_eq [abs_def] by (rule *) (rule cells_within_line)
  show "sx < 3 \<Longrightarrow> sy < 3 \<Longrightarrow> shrinking (single_sq_candidate_subgrid vorder sx sy)"
    unfolding single_sq_candidate_subgrid_eq [abs_def] by (rule *) (rule cells_within_subgrid)
qed

section \<open>Monotone steps: claiming and the rounds\<close>

lemma grid_shrinking_fold:
  assumes "\<And>a. a \<in> set xs \<Longrightarrow> grid_shrinking (k a)"
  shows "grid_shrinking (fold k xs)"
  using assms
proof (induction xs)
  case Nil
  show ?case by (simp add: grid_shrinking_def)
next
  case (Cons a xs)
  have a: "grid_shrinking (k a)" and r: "grid_shrinking (fold k xs)" using Cons by simp_all
  show ?case
    unfolding grid_shrinking_def
  proof (intro allI impI)
    fix g :: "int set grid" assume s: "shaped grid_l grid_l g"
    from a s have 1: "shaped grid_l grid_l (k a g)" and 2: "\<And>x y. gget (k a g) x y \<subseteq> gget g x y"
      by (simp_all add: grid_shrinking_def)
    from r 1 have 3: "shaped grid_l grid_l (fold k xs (k a g))"
      and 4: "\<And>x y. gget (fold k xs (k a g)) x y \<subseteq> gget (k a g) x y"
      by (simp_all add: grid_shrinking_def)
    show "shaped grid_l grid_l (fold k (a # xs) g) \<and>
          (\<forall>x y. gget (fold k (a # xs) g) x y \<subseteq> gget g x y)"
      using 3 4 2 by (auto simp: subset_iff)
  qed
qed

lemma grid_shrinking_discard:
  assumes "P \<longrightarrow> x < grid_l \<and> y < grid_l"
  shows "grid_shrinking (\<lambda>g. if P then discard g x y v else g)"
proof (cases P)
  case True
  with assms have x: "x < grid_l" and y: "y < grid_l" by simp_all
  show ?thesis
    unfolding grid_shrinking_def using True
    by (auto simp: shaped_discard gget_discard [OF _ x y])
next
  case False
  then show ?thesis by (simp add: grid_shrinking_def)
qed

lemma shrinking_of_grid:
  assumes "\<And>b. grid_shrinking (k b)"
  shows "shrinking (\<lambda>b. b\<lparr>c_grid := k b (c_grid b)\<rparr>)"
  using assms by (intro shrinkingI) (simp_all add: well_formed_def grid_shrinking_def)

lemma shrinking_number_claiming_row:
  assumes "sub_grid_y < 3"
  shows "shrinking (number_claiming_row vorder sub_grid_x sub_grid_y)"
proof -
  define K where "K = (\<lambda>b :: board.
     fold (\<lambda>sub_row.
             fold (\<lambda>claimant.
                     fold (\<lambda>x g. if x div 3 \<noteq> sub_grid_x
                                  then discard g x (sub_grid_y * 3 + sub_row) claimant
                                  else g)
                       [0..<9])
               (vorder (claimed_of (subrow_sets sub_grid_x sub_grid_y (c_grid b)) ! sub_row)))
       [0..<3])"
  have "grid_shrinking (K b)" for b
    unfolding K_def using assms
    by (intro grid_shrinking_fold grid_shrinking_discard) (auto simp: grid_l_def)
  then have "shrinking (\<lambda>b. b\<lparr>c_grid := K b (c_grid b)\<rparr>)" by (rule shrinking_of_grid)
  then show ?thesis by (simp add: number_claiming_row_def [abs_def] Let_def K_def)
qed

lemma shrinking_number_claiming_col:
  assumes "sub_grid_x < 3"
  shows "shrinking (number_claiming_col vorder sub_grid_x sub_grid_y)"
proof -
  define K where "K = (\<lambda>b :: board.
     fold (\<lambda>sub_col.
             fold (\<lambda>claimant.
                     fold (\<lambda>y g. if y div 3 \<noteq> sub_grid_y
                                  then discard g (sub_grid_x * 3 + sub_col) y claimant
                                  else g)
                       [0..<9])
               (vorder (claimed_of (subcol_sets sub_grid_x sub_grid_y (c_grid b)) ! sub_col)))
       [0..<3])"
  have "grid_shrinking (K b)" for b
    unfolding K_def using assms
    by (intro grid_shrinking_fold grid_shrinking_discard) (auto simp: grid_l_def)
  then have "shrinking (\<lambda>b. b\<lparr>c_grid := K b (c_grid b)\<rparr>)" by (rule shrinking_of_grid)
  then show ?thesis by (simp add: number_claiming_col_def [abs_def] Let_def K_def)
qed

lemma shrinking_iterator:
  assumes "\<And>x_range y_range. snd x_range \<le> grid_l \<Longrightarrow> snd y_range \<le> grid_l \<Longrightarrow>
             shrinking (func x_range y_range)"
  shows "shrinking (iterator func)"
proof -
  have line: "shrinking (\<lambda>b'. func (sq, sq + 1) (0, grid_l) (func (0, grid_l) (sq, sq + 1) b'))"
    if "sq < grid_l" for sq
    using that
    by (intro shrinking_comp [of "func (0, grid_l) (sq, sq + 1)" "func (sq, sq + 1) (0, grid_l)"] assms)
       simp_all
  have 1: "shrinking (fold (\<lambda>sq b'. func (sq, sq + 1) (0, grid_l) (func (0, grid_l) (sq, sq + 1) b'))
                        [0..<grid_l])"
    by (rule shrinking_fold) (use line in auto)
  have inner: "shrinking (fold (\<lambda>s_grid_x. func (s_grid_x * sub_l, s_grid_x * sub_l + sub_l)
                                        (s_grid_y * sub_h, s_grid_y * sub_h + sub_h))
                   [0..<sub_h])" if "s_grid_y < sub_l" for s_grid_y
    using that by (intro shrinking_fold assms) (simp_all add: grid_l_def sub_l_def sub_h_def)
  have 2: "shrinking (fold (\<lambda>s_grid_y.
                 fold (\<lambda>s_grid_x. func (s_grid_x * sub_l, s_grid_x * sub_l + sub_l)
                                        (s_grid_y * sub_h, s_grid_y * sub_h + sub_h))
                   [0..<sub_h])
           [0..<sub_l])"
    by (rule shrinking_fold) (simp add: inner)
  from shrinking_comp [OF 1 2] show ?thesis by (simp add: iterator_def [abs_def] Let_def)
qed

lemma shrinking_iter_over_line:
  assumes "\<And>i. i < grid_l \<Longrightarrow> shrinking (func i)"
  shows "shrinking (iter_over_line func)"
  unfolding iter_over_line_def [abs_def]
  by (rule shrinking_fold) (simp add: assms grid_l_def)

lemma shrinking_iter_over_subgrids:
  assumes "\<And>sx sy. sx < 3 \<Longrightarrow> sy < 3 \<Longrightarrow> shrinking (func sx sy)"
  shows "shrinking (iter_over_subgrids func)"
proof -
  have "shrinking (fold (\<lambda>sub_grid_x. func sub_grid_x sub_grid_y) [0..<3])"
    if "sub_grid_y < 3" for sub_grid_y
    using that by (intro shrinking_fold assms) simp_all
  then show ?thesis
    unfolding iter_over_subgrids_def [abs_def] by (rule shrinking_fold [where xs = "[0..<3]"]) simp
qed

lemma shrinking_main_round: "shrinking (main_round order)"
proof -
  have 1: "shrinking (fold write_solution [0..<grid_l])"
    by (rule shrinking_fold) (simp add: shrinking_write_solution)
  have "shrinking (iterator (\<lambda>x_range y_range. disjoint_subsets order x_range y_range n))" for n
    by (rule shrinking_iterator) (rule shrinking_disjoint_subsets)
  then have 2: "shrinking (fold (\<lambda>n. iterator (\<lambda>x_range y_range. disjoint_subsets order x_range y_range n))
                        [2..<5])"
    by (intro shrinking_fold)
  from shrinking_comp [OF 1 2] show ?thesis by (simp add: main_round_def [abs_def] Let_def)
qed

lemma shrinking_solve_round: "shrinking (solve_round order vorder)"
proof -
  note line = shrinking_iter_over_line
  note sub = shrinking_iter_over_subgrids
  have 1: "shrinking (iter_over_line single_candidate_square)"
    by (rule line) (rule shrinking_single_candidate_square)
  have 2: "shrinking (iter_over_line (single_sq_candidate_row vorder))"
    by (rule line) (rule shrinking_single_sq_candidate)
  have 3: "shrinking (iter_over_line (single_sq_candidate_col vorder))"
    by (rule line) (rule shrinking_single_sq_candidate)
  have 4: "shrinking (iter_over_subgrids (single_sq_candidate_subgrid vorder))"
    by (rule sub) (rule shrinking_single_sq_candidate)
  have 5: "shrinking (iter_over_subgrids (number_claiming_row vorder))"
    by (rule sub) (rule shrinking_number_claiming_row)
  have 6: "shrinking (iter_over_subgrids (number_claiming_col vorder))"
    by (rule sub) (rule shrinking_number_claiming_col)
  have r: "shrinking (iter_over_line (\<lambda>y. disjoint_subsets_row order y n))" for n
    by (rule line) (rule shrinking_old_disjoint_subsets)
  have c: "shrinking (iter_over_line (\<lambda>x. disjoint_subsets_col order x n))" for n
    by (rule line) (rule shrinking_old_disjoint_subsets)
  have s: "shrinking (iter_over_subgrids (\<lambda>sx sy. disjoint_subsets_subgrid order sx sy n))" for n
    by (rule sub) (rule shrinking_old_disjoint_subsets)
  have "shrinking (\<lambda>b'. iter_over_subgrids (\<lambda>sx sy. disjoint_subsets_subgrid order sx sy n)
                        (iter_over_line (\<lambda>x. disjoint_subsets_col order x n)
                          (iter_over_line (\<lambda>y. disjoint_subsets_row order y n) b')))" for n
    using shrinking_comp [OF shrinking_comp [OF r [of n] c [of n]] s [of n]] .
  then have 7: "shrinking (fold (\<lambda>n b'. iter_over_subgrids (\<lambda>sx sy. disjoint_subsets_subgrid order sx sy n)
                        (iter_over_line (\<lambda>x. disjoint_subsets_col order x n)
                          (iter_over_line (\<lambda>y. disjoint_subsets_row order y n) b')))
           [2..<5])"
    by (intro shrinking_fold)
  from shrinking_comp [OF shrinking_comp [OF shrinking_comp [OF shrinking_comp
        [OF shrinking_comp [OF shrinking_comp [OF 1 2] 3] 4] 5] 6] 7]
  show ?thesis by (simp add: solve_round_def [abs_def] Let_def)
qed

lemma shrinks_funpow:
  assumes "shrinking f" "well_formed b"
  shows "shrinks b ((f ^^ k) b)" and "shrinks ((f ^^ k) b) ((f ^^ Suc k) b)"
proof -
  show 1: "shrinks b ((f ^^ k) b)" for k
  proof (induction k)
    case 0
    show ?case using assms(2) by (simp add: shrinks_refl)
  next
    case (Suc k)
    then have "well_formed ((f ^^ k) b)" by (simp add: shrinks_def)
    with assms(1) have "shrinks ((f ^^ k) b) (f ((f ^^ k) b))" by (simp add: shrinking_def)
    with Suc show ?case by (simp add: shrinks_trans)
  qed
  from 1 [of k] have "well_formed ((f ^^ k) b)" by (simp add: shrinks_def)
  with assms(1) show "shrinks ((f ^^ k) b) ((f ^^ Suc k) b)" by (simp add: shrinking_def)
qed

text \<open>
  Claim C2 (monotonicity). On a well-formed board every technique invocation of either
  solver (naked singles, hidden singles, claiming, disjoint subsets, on any row, column
  or sub-grid) gives a well-formed board on which each candidate set is a subset of
  what it was; so does every round of either driver, and from one round to the next no
  candidate set gains an element or grows in cardinality.
\<close>

theorem techniques_monotone:
  assumes "well_formed b" "i < grid_l" "sx < 3" "sy < 3"
    and "snd x_range \<le> grid_l" "snd y_range \<le> grid_l"
  shows "shrinks b (write_solution i b) \<and>
         shrinks b (disjoint_subsets order x_range y_range n b) \<and>
         shrinks b (single_candidate_square i b) \<and>
         shrinks b (single_sq_candidate_row vorder i b) \<and>
         shrinks b (single_sq_candidate_col vorder i b) \<and>
         shrinks b (single_sq_candidate_subgrid vorder sx sy b) \<and>
         shrinks b (number_claiming_row vorder sx sy b) \<and>
         shrinks b (number_claiming_col vorder sx sy b) \<and>
         shrinks b (disjoint_subsets_row order i n b) \<and>
         shrinks b (disjoint_subsets_col order i n b) \<and>
         shrinks b (disjoint_subsets_subgrid order sx sy n b) \<and>
         shrinks ((main_round order ^^ k) b) ((main_round order ^^ Suc k) b) \<and>
         shrinks ((solve_round order vorder ^^ k) b) ((solve_round order vorder ^^ Suc k) b) \<and>
         (\<forall>x < grid_l. \<forall>y < grid_l. finite (gget (c_grid b) x y) \<longrightarrow>
            card (gget (c_grid ((main_round order ^^ Suc k) b)) x y)
              \<le> card (gget (c_grid ((main_round order ^^ k) b)) x y) \<and>
            card (gget (c_grid ((solve_round order vorder ^^ Suc k) b)) x y)
              \<le> card (gget (c_grid ((solve_round order vorder ^^ k) b)) x y))"
proof -
  have step: "shrinks b (f b)" if "shrinking f" for f
    using that assms(1) by (simp add: shrinking_def)
  have cards: "card (gget (c_grid ((f ^^ Suc k) b)) x y) \<le> card (gget (c_grid ((f ^^ k) b)) x y)"
    if "shrinking f" "x < grid_l" "y < grid_l" "finite (gget (c_grid b) x y)" for f x y
  proof -
    from shrinks_funpow(1) [OF that(1) assms(1), of k] that(2,3)
    have "gget (c_grid ((f ^^ k) b)) x y \<subseteq> gget (c_grid b) x y" by (simp add: shrinks_def)
    with that(4) have fin: "finite (gget (c_grid ((f ^^ k) b)) x y)" by (rule rev_finite_subset)
    from shrinks_funpow(2) [OF that(1) assms(1), of k] that(2,3)
    have "gget (c_grid ((f ^^ Suc k) b)) x y \<subseteq> gget (c_grid ((f ^^ k) b)) x y"
      by (simp add: shrinks_def)
    with fin show ?thesis by (rule card_mono)
  qed
  show ?thesis
  proof (intro conjI allI impI)
    show "shrinks b (write_solution i b)"
      by (rule step) (rule shrinking_write_solution [OF assms(2)])
    show "shrinks b (disjoint_subsets order x_range y_range n b)"
      by (rule step) (rule shrinking_disjoint_subsets [OF assms(5,6)])
    show "shrinks b (single_candidate_square i b)"
      by (rule step) (rule shrinking_single_candidate_square [OF assms(2)])
    show "shrinks b (single_sq_candidate_row vorder i b)"
      by (rule step) (rule shrinking_single_sq_candidate(1) [OF assms(2)])
    show "shrinks b (single_sq_candidate_col vorder i b)"
      by (rule step) (rule shrinking_single_sq_candidate(2) [OF assms(2)])
    show "shrinks b (single_sq_candidate_subgrid vorder sx sy b)"
      by (rule step) (rule shrinking_single_sq_candidate(3) [OF assms(3,4)])
    show "shrinks b (number_claiming_row vorder sx sy b)"
      by (rule step) (rule shrinking_number_claiming_row [OF assms(4)])
    show "shrinks b (number_claiming_col vorder sx sy b)"
      by (rule step) (rule shrinking_number_claiming_col [OF assms(3)])
    show "shrinks b (disjoint_subsets_row order i n b)"
      by (rule step) (rule shrinking_old_disjoint_subsets(1) [OF assms(2)])
    show "shrinks b (disjoint_subsets_col order i n b)"
      by (rule step) (rule shrinking_old_disjoint_subsets(2) [OF assms(2)])
    show "shrinks b (disjoint_subsets_subgrid order sx sy n b)"
      by (rule step) (rule shrinking_old_disjoint_subsets(3) [OF assms(3,4)])
    show "shrinks ((main_round order ^^ k) b) ((main_round order ^^ Suc k) b)"
      using shrinking_main_round assms(1) by (rule shrinks_funpow(2))
    show "shrinks ((solve_round order vorder ^^ k) b) ((solve_round order vorder ^^ Suc k) b)"
      using shrinking_solve_round assms(1) by (rule shrinks_funpow(2))
  next
    fix x y assume "x < grid_l" "y < grid_l" "finite (gget (c_grid b) x y)"
    then show "card (gget (c_grid ((main_round order ^^ Suc k) b)) x y)
              \<le> card (gget (c_grid ((main_round order ^^ k) b)) x y)"
      using cards [OF shrinking_main_round] by blast
  next
    fix x y assume "x < grid_l" "y < grid_l" "finite (gget (c_grid b) x y)"
    then show "card (gget (c_grid ((solve_round order vorder ^^ Suc k) b)) x y)
              \<le> card (gget (c_grid ((solve_round order vorder ^^ k) b)) x y)"
      using cards [OF shrinking_solve_round] by blast
  qed
qed

theorem techniques_monotone_witness:
  "well_formed example_board \<and>
   gget (c_grid (write_solution 0 example_board)) 1 0 \<subseteq> gget (c_grid example_board) 1 0 \<and>
   gget (c_grid (single_sq_candidate_row sorted_list_of_set 0 example_board)) 1 0
     \<subseteq> gget (c_grid example_board) 1 0 \<and>
   gget (c_grid (number_claiming_row sorted_list_of_set 0 0 example_board)) 1 0
     \<subseteq> gget (c_grid example_board) 1 0 \<and>
   gget (c_grid (disjoint_subsets remdups (0, grid_l) (0, 1) 2 example_board)) 1 0
     \<subseteq> gget (c_grid example_board) 1 0 \<and>
   finite (gget (c_grid example_board) 1 0) \<and>
   card (gget (c_grid (main_round remdups example_board)) 1 0)
     \<le> card (gget (c_grid example_board) 1 0) \<and>
   card (gget (c_grid (solve_round remdups sorted_list_of_set example_board)) 1 0)
     \<le> card (gget (c_grid example_board) 1 0)"
proof -
  have r: "(0 :: nat) < grid_l" "(1 :: nat) < grid_l" "(0 :: nat) < 3"
    "snd (0 :: nat, grid_l) \<le> grid_l" "snd (0 :: nat, 1 :: nat) \<le> grid_l"
    by (simp_all add: grid_l_def)
  have f: "finite (gget (c_grid example_board) 1 0)"
    by (simp add: example_board_def gget_def gput_def)
  note t = techniques_monotone [OF well_formed_example_board r(1) r(3) r(3) r(4) r(5),
      of remdups 2 sorted_list_of_set 0, unfolded shrinks_def]
  from t r(1,2) f show ?thesis
    using well_formed_example_board by simp
qed

section \<open>Loading: the board it builds\<close>

lemma load_cell_loading:
  assumes "loading k x b" "x < grid_l" "load_cell line y x b = Inr b'"
  shows "loading k (Suc x) b'"
proof -
  from assms(3) obtain v where
    b': "b' = b\<lparr>m_grid := (m_grid b)[x := m_grid b ! x @ [v]]\<rparr> \<or>
         b' = b\<lparr>m_grid := (m_grid b)[x := m_grid b ! x @ [v]],
                col_set := (col_set b)[x := insert v (col_set b ! x)],
                row_set := (row_set b)[y := insert v (row_set b ! y)],
                s_grid_set := gput (s_grid_set b) (x div sub_l) (y div sub_h)
                  (insert v (gget (s_grid_set b) (x div sub_l) (y div sub_h)))\<rparr>"
    by (auto simp: load_cell_def Let_def split: if_splits sum.splits)
  have m: "length ((m_grid b)[x := m_grid b ! x @ [v]] ! i) = (if i < Suc x then Suc k else k)"
    if "i < grid_l" for i
    using assms(1,2) that by (cases "i = x") (auto simp: loading_def)
  from b' show ?thesis
    using assms(1) m by (auto simp: loading_def shaped_gput)
qed

lemma load_cells_loading:
  assumes "loading k x b" "load_cells line y [x..<grid_l] b = Inr b'"
  shows "loading k grid_l b'"
  using assms
proof (induction "grid_l - x" arbitrary: x b)
  case 0
  then have "[x..<grid_l] = []" by simp
  with 0 have "b' = b" and "grid_l \<le> x" by simp_all
  with "0.prems"(1) show ?case by (auto simp: loading_def)
next
  case (Suc n)
  then have x: "x < grid_l" by simp
  then have u: "[x..<grid_l] = x # [Suc x..<grid_l]" by (rule upt_conv_Cons)
  from Suc.prems(2) obtain b1 where 1: "load_cell line y x b = Inr b1"
    and 2: "load_cells line y [Suc x..<grid_l] b1 = Inr b'"
    unfolding u by (auto split: sum.splits)
  from Suc.hyps(2) have n: "n = grid_l - Suc x" by simp
  from Suc.hyps(1) [OF n load_cell_loading [OF Suc.prems(1) x 1] 2] show ?case .
qed

lemma loading_next_row: "loading k grid_l b \<Longrightarrow> loading (Suc k) 0 b"
  by (simp add: loading_def)

lemma load_rows_loading:
  assumes "loading k 0 b" "load_rows puzzle ys b = Inr b'"
  shows "loading (k + length ys) 0 b'"
  using assms
proof (induction ys arbitrary: k b puzzle)
  case Nil
  then show ?case by simp
next
  case (Cons y ys)
  from Cons.prems(2) obtain b1 where
    1: "load_cells (fst (readline puzzle)) y [0..<grid_l] b = Inr b1"
    and 2: "load_rows (snd (readline puzzle)) ys b1 = Inr b'"
    by (auto split: sum.splits)
  from load_cells_loading [OF Cons.prems(1) 1] have "loading (Suc k) 0 b1"
    by (rule loading_next_row)
  from Cons.IH [OF this 2] show ?case by simp
qed

lemma well_formed_fill_candidates:
  assumes "well_formed b"
  shows "well_formed (fill_candidates b)"
proof -
  have one: "well_formed (candidates_at y x b)" if "well_formed b" for x y b
    using that by (simp add: candidates_at_def well_formed_def shaped_gput Let_def)
  have row: "well_formed (fold (candidates_at y) xs b)" if "well_formed b" for xs y b
    using that by (induction xs arbitrary: b) (simp_all add: one)
  have "well_formed (fold (\<lambda>y. fold (candidates_at y) xs) ys b)" if "well_formed b" for xs ys b
    using that by (induction ys arbitrary: b) (simp_all add: row)
  with assms show ?thesis by (simp add: fill_candidates_def)
qed

lemma well_formed_init:
  assumes "init puzzle = Inr b"
  shows "well_formed b"
proof -
  from assms obtain b1 where 1: "load_rows puzzle [0..<grid_l] initial_board = Inr b1"
    and b: "b = fill_candidates b1"
    by (auto simp: init_def split: sum.splits)
  have "loading 0 0 initial_board"
    by (simp add: loading_def initial_board_def shaped_replicate)
  from load_rows_loading [OF this 1] have "loading grid_l 0 b1" by simp
  then have "well_formed b1"
    by (simp add: loading_def well_formed_def shaped_def list_all_length)
  then show ?thesis unfolding b by (rule well_formed_fill_candidates)
qed

section \<open>The drivers: rounds and outcome\<close>

lemma run_loop_spec:
  assumes "x \<le> 100"
  shows "(case run_loop round solved x b of (out, k, b') \<Rightarrow>
            x \<le> k \<and> k \<le> 100 \<and> b' = (round ^^ (k - x)) b \<and>
            (\<forall>j. 0 < j \<and> j < k - x \<longrightarrow> \<not> solved ((round ^^ j) b)) \<and>
            (out = Solved \<longleftrightarrow> x < k \<and> solved b') \<and>
            (out = Stalled \<longleftrightarrow> k = 100 \<and> (x < k \<longrightarrow> \<not> solved b')))"
  using assms
proof (induction round solved x b rule: run_loop.induct)
  case (1 round solved x b)
  show ?case
  proof (cases "x < 100")
    case False
    with "1.prems" have "x = 100" by simp
    then show ?thesis by (simp add: run_loop.simps [of round solved 100 b])
  next
    case True
    show ?thesis
    proof (cases "solved (round b)")
      case s: True
      with True show ?thesis by (simp add: run_loop.simps [of round solved x b])
    next
      case s: False
      obtain out k b' where r: "run_loop round solved (Suc x) (round b) = (out, k, b')"
        by (metis prod.exhaust)
      from "1.IH" [OF True refl s] True r
      have ih: "Suc x \<le> k" "k \<le> 100" "b' = (round ^^ (k - Suc x)) (round b)"
        "\<forall>j. 0 < j \<and> j < k - Suc x \<longrightarrow> \<not> solved ((round ^^ j) (round b))"
        "out = Solved \<longleftrightarrow> Suc x < k \<and> solved b'"
        "out = Stalled \<longleftrightarrow> k = 100 \<and> (Suc x < k \<longrightarrow> \<not> solved b')"
        by simp_all
      have e: "run_loop round solved x b = (out, k, b')"
        using True s r by (simp add: run_loop.simps [of round solved x b])
      have k: "k - x = Suc (k - Suc x)" using ih(1) by simp
      have b': "b' = (round ^^ (k - x)) b" unfolding k using ih(3) by (simp add: funpow_swap1)
      have first: "\<not> solved ((round ^^ 1) b)" using s by simp
      have mid: "\<not> solved ((round ^^ j) b)" if "0 < j" "j < k - x" for j
      proof (cases "j = 1")
        case True
        with first show ?thesis by simp
      next
        case False
        with that obtain j' where j': "j = Suc j'" "0 < j'" "j' < k - Suc x"
          by (cases j) auto
        with ih(4) have "\<not> solved ((round ^^ j') (round b))" by simp
        then show ?thesis by (simp add: j'(1) funpow_swap1)
      qed
      have sol: "out = Solved \<longleftrightarrow> x < k \<and> solved b'"
      proof (cases "Suc x < k")
        case True
        with ih(5) show ?thesis by auto
      next
        case False
        with ih(1) have "k = Suc x" by simp
        with b' s ih(5) show ?thesis by simp
      qed
      have sta: "out = Stalled \<longleftrightarrow> k = 100 \<and> (x < k \<longrightarrow> \<not> solved b')"
      proof (cases "Suc x < k")
        case True
        with ih(6) show ?thesis by auto
      next
        case False
        with ih(1) have "k = Suc x" by simp
        with b' s ih(6) show ?thesis by simp
      qed
      show ?thesis unfolding e using ih(1,2) b' mid sol sta by simp
    qed
  qed
qed


text \<open>
  Claim C8 (driver termination and round cap). The loop of either driver runs at least
  one and at most 100 rounds. It tests the board after each round and stops at the first
  round after which the test holds (the grid is printed: \<open>Solved\<close>); when no round among
  the 100 passes the test it ends after the 100th, printing nothing (\<open>Stalled\<close>). The loop
  is a total function, the board \<^verbatim>\<open>init()\<close> builds is well formed and every round keeps
  it so: all indices stay within the lists.
\<close>

theorem driver_round_cap:
  "(case run_loop round solved 0 b of (out, k, b') \<Rightarrow>
      0 < k \<and> k \<le> 100 \<and> b' = (round ^^ k) b \<and>
      (\<forall>j. 0 < j \<and> j < k \<longrightarrow> \<not> solved ((round ^^ j) b)) \<and>
      (out = Solved \<longleftrightarrow> solved b') \<and> (out = Stalled \<longleftrightarrow> k = 100 \<and> \<not> solved b')) \<and>
   solve order vorder b = run_loop (solve_round order vorder) is_solved_old 0 b \<and>
   main order puzzle =
     (case init puzzle of
        Inl e \<Rightarrow> Inl e
      | Inr b\<^sub>0 \<Rightarrow> Inr (run_loop (main_round order) is_solved 0 b\<^sub>0)) \<and>
   (\<forall>b\<^sub>0. init puzzle = Inr b\<^sub>0 \<longrightarrow> well_formed b\<^sub>0) \<and>
   (well_formed b \<longrightarrow>
      well_formed (main_round order b) \<and> well_formed (solve_round order vorder b))"
proof -
  obtain out k b' where r: "run_loop round solved 0 b = (out, k, b')"
    by (metis prod.exhaust)
  from run_loop_spec [where x = 0 and round = round and solved = solved and b = b] r
  have s: "k \<le> 100" "b' = (round ^^ k) b"
    "\<forall>j. 0 < j \<and> j < k \<longrightarrow> \<not> solved ((round ^^ j) b)"
    "out = Solved \<longleftrightarrow> 0 < k \<and> solved b'"
    "out = Stalled \<longleftrightarrow> k = 100 \<and> (0 < k \<longrightarrow> \<not> solved b')"
    by simp_all
  have pos: "0 < k" using s(4,5) by (cases out) simp_all
  have 1: "case run_loop round solved 0 b of (out, k, b') \<Rightarrow>
      0 < k \<and> k \<le> 100 \<and> b' = (round ^^ k) b \<and>
      (\<forall>j. 0 < j \<and> j < k \<longrightarrow> \<not> solved ((round ^^ j) b)) \<and>
      (out = Solved \<longleftrightarrow> solved b') \<and> (out = Stalled \<longleftrightarrow> k = 100 \<and> \<not> solved b')"
    unfolding r using s pos by simp
  have 2: "well_formed (main_round order b) \<and> well_formed (solve_round order vorder b)"
    if "well_formed b"
    using that shrinking_main_round [of order] shrinking_solve_round [of order vorder]
    by (simp add: shrinking_def shrinks_def)
  show ?thesis
    using 1 2 well_formed_init by (simp add: solve_def main_def)
qed

theorem driver_round_cap_witness:
  "fst (run_loop (main_round remdups) is_solved 0 (projr (init two_round_puzzle))) = Solved \<and>
   fst (snd (run_loop (main_round remdups) is_solved 0 (projr (init two_round_puzzle)))) = 2 \<and>
   \<not> is_solved (main_round remdups (projr (init two_round_puzzle))) \<and>
   is_solved ((main_round remdups ^^ 2) (projr (init two_round_puzzle))) \<and>
   well_formed (projr (init two_round_puzzle)) \<and>
   well_formed (main_round remdups (projr (init two_round_puzzle)))"
proof -
  let ?b = "projr (init two_round_puzzle)"
  let ?r = "run_loop (main_round remdups) is_solved 0 ?b"
  have e: "fst ?r = Solved \<and> fst (snd ?r) = 2" by code_simp
  have i: "\<not> isl (init two_round_puzzle)" by code_simp
  then have i': "init two_round_puzzle = Inr ?b" by (cases "init two_round_puzzle") simp_all
  obtain out k b' where r: "?r = (out, k, b')" by (metis prod.exhaust)
  with e have ok: "out = Solved" "k = 2" by simp_all
  note t = driver_round_cap [where round = "main_round remdups" and solved = is_solved
      and b = ?b and order = remdups and vorder = sorted_list_of_set
      and puzzle = two_round_puzzle, unfolded r]
  from t have j: "\<forall>j. 0 < j \<and> j < k \<longrightarrow> \<not> is_solved ((main_round remdups ^^ j) ?b)"
    and b': "b' = (main_round remdups ^^ k) ?b" and so: "out = Solved \<longleftrightarrow> is_solved b'"
    and w0: "\<forall>b\<^sub>0. init two_round_puzzle = Inr b\<^sub>0 \<longrightarrow> well_formed b\<^sub>0"
    and w1: "well_formed ?b \<longrightarrow> well_formed (main_round remdups ?b)"
    by simp_all
  from j ok(2) have "\<not> is_solved ((main_round remdups ^^ 1) ?b)"
    by (elim allE [of _ 1]) simp
  then have "\<not> is_solved (main_round remdups ?b)" by simp
  moreover from so ok b' have "is_solved ((main_round remdups ^^ 2) ?b)" by simp
  moreover from w0 i' have "well_formed ?b" by simp
  moreover from this w1 have "well_formed (main_round remdups ?b)" by simp
  ultimately show ?thesis using e by simp
qed

section \<open>Solved boards: what the tests decide\<close>








section \<open>Hidden singles: what one application places\<close>













end
